theory Spec2Isabelle
  imports Complex_Main "HOL-Library.Multiset"
begin

section \<open>Failures\<close>

text \<open>
  The exceptions of the library, as values. \<open>Functor_exception n\<close> stands for whatever
  a user-supplied hashing functor throws, \<open>Constructor_exception n\<close> for whatever a
  constructor of the key type or of a functor throws. \<open>Assertion_failure\<close> is not a C++
  exception: it marks the places where a \<open>piranha_assert\<close> guards against undefined
  behaviour (an index out of range, a remainder by zero, a bucket count that is no size
  class); no \<open>catch\<close> clause sees it.
\<close>

datatype exn =
    Bad_alloc
  | Overflow_error
  | Zero_division_error
  | Invalid_argument
  | Functor_exception nat
  | Constructor_exception nat
  | Assertion_failure

text \<open>
  Allocations and constructors fail for reasons that lie outside the table: the free
  store is exhausted, a constructor of the key type throws. They are modelled by a
  schedule that the operations consume: the outcomes of the coming fallible steps, in
  the order in which the program takes them. \<open>None\<close> lets a step succeed, \<open>Some f\<close>
  makes it throw; beyond the end of the schedule every step succeeds. A statement for
  every schedule covers every way in which these steps can fail.
\<close>

datatype fault = Out_of_memory | Constructor_throws nat

type_synonym faults = "fault option list"

fun thrown :: "fault \<Rightarrow> exn" where
  "thrown Out_of_memory = Bad_alloc"
| "thrown (Constructor_throws n) = Constructor_exception n"

fun fallible_step :: "faults \<Rightarrow> (exn + unit) \<times> faults" where
  "fallible_step [] = (Inr (), [])"
| "fallible_step (None # w) = (Inr (), w)"
| "fallible_step (Some f # w) = (Inl (thrown f), w)"

definition fault_free :: "faults \<Rightarrow> bool" where
  "fault_free w = (\<forall>f \<in> set w. f = None)"

section \<open>The hash set of \<open>hash_set.hpp\<close>\<close>

subsection \<open>Size classes\<close>

text \<open>
  \<open>hash_set::table_sizes\<close> in 64-bit mode (\<open>PIRANHA_64BIT_MODE\<close>): 41 entries, and
  \<open>size_type\<close> is a 64-bit unsigned integer.
\<close>

definition table_sizes :: "nat list" where
  "table_sizes =
    [0, 1, 3, 5, 11, 23, 53, 97, 193, 389, 769, 1543, 3079, 6151, 12289, 24593,
     49157, 98317, 196613, 393241, 786433, 1572869, 3145739, 6291469, 12582917,
     25165843, 50331653, 100663319, 201326611, 402653189, 805306457, 1610612741,
     3221225473, 6442450939, 12884901893, 25769803799, 51539607551, 103079215111,
     206158430209, 412316860441, 824633720831]"

definition n_available_sizes :: nat where
  "n_available_sizes = 41"

definition size_type_max :: nat where
  "size_type_max = 2 ^ 64 - 1"

text \<open>
  \<open>std::lower_bound\<close> and \<open>std::upper_bound\<close> on an ascending range, as the index of
  the first entry that is not less than (respectively greater than) the value; the
  length of the range when there is none.
\<close>

fun lower_bound :: "nat list \<Rightarrow> nat \<Rightarrow> nat" where
  "lower_bound [] v = 0"
| "lower_bound (x # xs) v = (if v \<le> x then 0 else Suc (lower_bound xs v))"

fun upper_bound :: "nat list \<Rightarrow> nat \<Rightarrow> nat" where
  "upper_bound [] v = 0"
| "upper_bound (x # xs) v = (if v < x then 0 else Suc (upper_bound xs v))"

text \<open>\<open>get_size_from_hint\<close>: the first size class that is at least the hint.\<close>

definition get_size_from_hint :: "nat \<Rightarrow> exn + nat" where
  "get_size_from_hint hint =
    (let it = lower_bound table_sizes hint in
     if it = length table_sizes then Inl Bad_alloc
     else Inr (table_sizes ! it))"

subsection \<open>The table\<close>

text \<open>
  A bucket is the chain of its keys in the order in which \<open>list::begin()\<close> \<dots>
  \<open>list::end()\<close> visits them: the key stored inline in the array slot first, then the
  heap nodes along \<open>m_next\<close>. The node-level layout of a bucket is modelled separately
  below, for \<open>_erase\<close>.

  The hashing functor may throw, and so may the allocation of the bucket array, the
  allocation of a node and the construction of a key in a node, each one a step of the
  schedule. Calling the equality predicate and copying the functors into a
  default-constructed table are taken not to throw.
\<close>

record 'a hash_set =
  m_container :: "'a list list"
  m_hasher :: "'a \<Rightarrow> exn + nat"
  m_key_equal :: "'a \<Rightarrow> 'a \<Rightarrow> bool"
  m_n_elements :: nat

text \<open>
  A table iterator: the bucket index \<open>m_idx\<close> and the position \<open>m_it\<close> inside the
  bucket's chain (\<open>None\<close> is the default-constructed local iterator).
\<close>

record iterator =
  m_idx :: nat
  m_it :: "nat option"

definition hash_set_default :: "('a \<Rightarrow> exn + nat) \<Rightarrow> ('a \<Rightarrow> 'a \<Rightarrow> bool) \<Rightarrow> 'a hash_set" where
  "hash_set_default h k =
    \<lparr>m_container = [], m_hasher = h, m_key_equal = k, m_n_elements = 0\<rparr>"

text \<open>
  The constructor from a number of buckets: \<open>get_size_from_hint\<close> picks the size class,
  then the members are constructed. Building the \<open>std::vector\<close> of \<open>n\<close> empty buckets
  (and copying the functors) is one fallible step.
\<close>

definition hash_set_n_buckets ::
  "nat \<Rightarrow> ('a \<Rightarrow> exn + nat) \<Rightarrow> ('a \<Rightarrow> 'a \<Rightarrow> bool) \<Rightarrow> faults \<Rightarrow>
   (exn + 'a hash_set) \<times> faults" where
  "hash_set_n_buckets n_buckets h k w =
    (case get_size_from_hint n_buckets of
       Inl e \<Rightarrow> (Inl e, w)
     | Inr n \<Rightarrow>
        (case fallible_step w of
           (Inl e, w1) \<Rightarrow> (Inl e, w1)
         | (Inr u, w1) \<Rightarrow>
             (Inr \<lparr>m_container = replicate n [], m_hasher = h, m_key_equal = k,
                   m_n_elements = 0\<rparr>, w1)))"

definition bucket_count :: "'a hash_set \<Rightarrow> nat" where
  "bucket_count s = length (m_container s)"

definition hs_size :: "'a hash_set \<Rightarrow> nat" where
  "hs_size s = m_n_elements s"

definition hs_empty :: "'a hash_set \<Rightarrow> bool" where
  "hs_empty s = (hs_size s = 0)"

definition hs_end :: "'a hash_set \<Rightarrow> iterator" where
  "hs_end s = \<lparr>m_idx = bucket_count s, m_it = None\<rparr>"

definition get_max_load_factor :: real where
  "get_max_load_factor = 1"

definition clear :: "'a hash_set \<Rightarrow> 'a hash_set" where
  "clear s = s\<lparr>m_container := [], m_n_elements := 0\<rparr>"

text \<open>
  The loop of \<open>begin()\<close> and of the iterator's \<open>increment()\<close> that looks for the next
  non-empty bucket from index \<open>idx\<close> on; it stops at the bucket count.
\<close>

function scan_nonempty :: "'a list list \<Rightarrow> nat \<Rightarrow> nat" where
  "scan_nonempty c idx =
    (if idx < length c then (if c ! idx \<noteq> [] then idx else scan_nonempty c (idx + 1))
     else idx)"
  by pat_completeness auto
termination
  by (relation "measure (\<lambda>(c, idx). length c - idx)") auto

declare scan_nonempty.simps [simp del]

definition hs_begin :: "'a hash_set \<Rightarrow> iterator" where
  "hs_begin s =
    (let idx = scan_nonempty (m_container s) 0 in
     \<lparr>m_idx = idx, m_it = (if idx \<noteq> bucket_count s then Some 0 else None)\<rparr>)"

text \<open>
  The iterator's \<open>increment()\<close> and \<open>dereference()\<close>; both assert that the iterator
  points to a key of the table.
\<close>

definition increment :: "iterator \<Rightarrow> 'a hash_set \<Rightarrow> exn + iterator" where
  "increment it s =
    (case m_it it of
       None \<Rightarrow> Inl Assertion_failure
     | Some pos \<Rightarrow>
         if \<not> (m_idx it < bucket_count s \<and> pos < length (m_container s ! m_idx it))
         then Inl Assertion_failure
         else if pos + 1 = length (m_container s ! m_idx it)
         then let idx = scan_nonempty (m_container s) (m_idx it + 1) in
              Inr \<lparr>m_idx = idx, m_it = (if idx = bucket_count s then None else Some 0)\<rparr>
         else Inr \<lparr>m_idx = m_idx it, m_it = Some (pos + 1)\<rparr>)"

definition dereference :: "iterator \<Rightarrow> 'a hash_set \<Rightarrow> exn + 'a" where
  "dereference it s =
    (case m_it it of
       None \<Rightarrow> Inl Assertion_failure
     | Some pos \<Rightarrow>
         if m_idx it < bucket_count s \<and> pos < length (m_container s ! m_idx it)
         then Inr (m_container s ! m_idx it ! pos)
         else Inl Assertion_failure)"

text \<open>
  The traversal \<open>for (it = begin(); it != end(); ++it)\<close> started at \<open>it\<close>, collecting
  the keys it visits; \<open>n\<close> bounds the number of steps, and \<open>None\<close> says that the bound
  was too small or that an assertion failed.
\<close>

fun iterate :: "nat \<Rightarrow> 'a hash_set \<Rightarrow> iterator \<Rightarrow> 'a list option" where
  "iterate 0 s it = (if it = hs_end s then Some [] else None)"
| "iterate (Suc n) s it =
    (if it = hs_end s then Some []
     else case (dereference it s, increment it s) of
            (Inr x, Inr it') \<Rightarrow> map_option ((#) x) (iterate n s it')
          | _ \<Rightarrow> None)"

text \<open>
  The keys in the order of a full iteration \<open>begin()\<close> \<dots> \<open>end()\<close>: buckets by
  ascending index, each chain from its inline node. Lemma \<open>iterate_elements\<close> below
  shows that the traversal visits exactly this list.
\<close>

definition elements :: "'a hash_set \<Rightarrow> 'a list" where
  "elements s = concat (m_container s)"

text \<open>
  \<open>get_size_index\<close>: \<open>std::equal_range\<close> on the size classes; the assertion says the
  range holds exactly one entry.
\<close>

definition get_size_index :: "'a hash_set \<Rightarrow> exn + nat" where
  "get_size_index s =
    (let first = lower_bound table_sizes (bucket_count s);
         second = upper_bound table_sizes (bucket_count s) in
     if second - first = 1 then Inr first else Inl Assertion_failure)"

text \<open>\<open>_bucket\<close>: \<open>m_hasher(k) % bucket_count()\<close>, a remainder by zero with no buckets.\<close>

definition ll_bucket :: "'a \<Rightarrow> 'a hash_set \<Rightarrow> exn + nat" where
  "ll_bucket k s =
    (if bucket_count s = 0 then Inl Assertion_failure
     else case m_hasher s k of
            Inl e \<Rightarrow> Inl e
          | Inr h \<Rightarrow> Inr (h mod bucket_count s))"

definition bucket :: "'a \<Rightarrow> 'a hash_set \<Rightarrow> exn + nat" where
  "bucket k s =
    (if bucket_count s = 0 then Inl Zero_division_error else ll_bucket k s)"

text \<open>The loop of \<open>_find\<close> over one chain, \<open>pos\<close> counting the nodes passed.\<close>

fun find_in_bucket :: "('a \<Rightarrow> 'a \<Rightarrow> bool) \<Rightarrow> 'a \<Rightarrow> 'a list \<Rightarrow> nat \<Rightarrow> nat option" where
  "find_in_bucket eq k [] pos = None"
| "find_in_bucket eq k (x # xs) pos =
    (if eq x k then Some pos else find_in_bucket eq k xs (Suc pos))"

definition ll_find :: "'a \<Rightarrow> nat \<Rightarrow> 'a hash_set \<Rightarrow> exn + iterator" where
  "ll_find k bucket_idx s =
    (if \<not> bucket_idx < bucket_count s then Inl Assertion_failure
     else case find_in_bucket (m_key_equal s) k (m_container s ! bucket_idx) 0 of
            None \<Rightarrow> Inr (hs_end s)
          | Some it \<Rightarrow> Inr \<lparr>m_idx = bucket_idx, m_it = Some it\<rparr>)"

definition hs_find :: "'a \<Rightarrow> 'a hash_set \<Rightarrow> exn + iterator" where
  "hs_find k s =
    (if bucket_count s = 0 then Inr (hs_end s)
     else case ll_bucket k s of
            Inl e \<Rightarrow> Inl e
          | Inr bucket_idx \<Rightarrow> ll_find k bucket_idx s)"

text \<open>
  \<open>list::insert\<close>: into an empty bucket the key is constructed inline; otherwise a new
  node is allocated, the key is constructed in it, and the node is linked right behind
  the inline one. The result is the new chain and the position of the new key in it.
  When \<open>new node()\<close> or the constructor of the key throws, nothing has been linked yet
  (a node already allocated is released by its \<open>unique_ptr\<close>) and the chain is as it
  was.
\<close>

fun list_insert :: "'a \<Rightarrow> 'a list \<Rightarrow> faults \<Rightarrow> (exn + 'a list \<times> nat) \<times> faults" where
  "list_insert item [] w =
    (case fallible_step w of
       (Inl e, w1) \<Rightarrow> (Inl e, w1)
     | (Inr u, w1) \<Rightarrow> (Inr ([item], 0), w1))"
| "list_insert item (first # rest) w =
    (case fallible_step w of
       (Inl e, w1) \<Rightarrow> (Inl e, w1)
     | (Inr new_node, w1) \<Rightarrow>
        (case fallible_step w1 of
           (Inl e, w2) \<Rightarrow> (Inl e, w2)
         | (Inr u, w2) \<Rightarrow> (Inr (first # item # rest, 1), w2)))"

text \<open>
  \<open>_unique_insert\<close>: \<open>list::insert\<close> on the bucket \<open>bucket_idx\<close>. An exception out of it
  leaves the table as it was.
\<close>

definition ll_unique_insert ::
  "'a \<Rightarrow> nat \<Rightarrow> 'a hash_set \<Rightarrow> faults \<Rightarrow> (exn + iterator) \<times> 'a hash_set \<times> faults" where
  "ll_unique_insert k bucket_idx s w =
    (if \<not> bucket_idx < bucket_count s then (Inl Assertion_failure, s, w)
     else case list_insert k (m_container s ! bucket_idx) w of
            (Inl e, w1) \<Rightarrow> (Inl e, s, w1)
          | (Inr (linked, ptr), w1) \<Rightarrow>
              (Inr \<lparr>m_idx = bucket_idx, m_it = Some ptr\<rparr>,
               s\<lparr>m_container := (m_container s)[bucket_idx := linked]\<rparr>, w1))"

definition ll_update_size :: "nat \<Rightarrow> 'a hash_set \<Rightarrow> 'a hash_set" where
  "ll_update_size new_size s = s\<lparr>m_n_elements := new_size\<rparr>"

text \<open>
  The loop of \<open>rehash\<close>: every key of the old table, in iteration order, is moved into
  the new table at the bucket the new table computes for it. It stops at the first
  failure; the result is the outcome and the new table as far as it was built.
\<close>

fun rehash_loop ::
  "'a list \<Rightarrow> 'a hash_set \<Rightarrow> faults \<Rightarrow> (exn + unit) \<times> 'a hash_set \<times> faults" where
  "rehash_loop [] new_table w = (Inr (), new_table, w)"
| "rehash_loop (x # xs) new_table w =
    (case ll_bucket x new_table of
       Inl e \<Rightarrow> (Inl e, new_table, w)
     | Inr new_idx \<Rightarrow>
        (case ll_unique_insert x new_idx new_table w of
           (Inl e, t, w1) \<Rightarrow> (Inl e, t, w1)
         | (Inr it, t, w1) \<Rightarrow> rehash_loop xs t w1))"

text \<open>
  \<open>rehash\<close>, up to the point where control leaves its body: the outcome, the table
  itself, the local \<open>new_table\<close> (absent when its construction failed) and the rest of
  the schedule. The new table is constructed before the \<open>try\<close> block: an exception
  there leaves the table alone. A C++ exception out of the loop is caught, both tables
  are cleared and it is thrown again; an assertion failure is not caught. On success
  the new table takes the element count, the old one is cleared and the new one is
  moved into it, which leaves \<open>new_table\<close> cleared.
\<close>

definition rehash_body ::
  "nat \<Rightarrow> 'a hash_set \<Rightarrow> faults \<Rightarrow>
   (exn + unit) \<times> 'a hash_set \<times> 'a hash_set option \<times> faults" where
  "rehash_body new_size s w =
    (case hash_set_n_buckets new_size (m_hasher s) (m_key_equal s) w of
       (Inl e, w1) \<Rightarrow> (Inl e, s, None, w1)
     | (Inr new_table, w1) \<Rightarrow>
        (case rehash_loop (elements s) new_table w1 of
           (Inl e, half_built, w2) \<Rightarrow>
             if e = Assertion_failure then (Inl e, s, Some half_built, w2)
             else (Inl e, clear s, Some (clear half_built), w2)
         | (Inr u, filled, w2) \<Rightarrow>
             let new_table' = filled\<lparr>m_n_elements := m_n_elements s\<rparr> in
             (Inr (), new_table', Some (clear new_table'), w2)))"

definition rehash ::
  "nat \<Rightarrow> 'a hash_set \<Rightarrow> faults \<Rightarrow> (exn + unit) \<times> 'a hash_set \<times> faults" where
  "rehash new_size s w = (case rehash_body new_size s w of (r, s', t, w') \<Rightarrow> (r, s', w'))"

definition ll_increase_size ::
  "'a hash_set \<Rightarrow> faults \<Rightarrow> (exn + unit) \<times> 'a hash_set \<times> faults" where
  "ll_increase_size s w =
    (case get_size_index s of
       Inl e \<Rightarrow> (Inl e, s, w)
     | Inr cur_size_index \<Rightarrow>
         if cur_size_index = n_available_sizes - 1 then (Inl Bad_alloc, s, w)
         else rehash (table_sizes ! (cur_size_index + 1)) s w)"

text \<open>
  \<open>insert\<close>. The load factor is the quotient of two \<open>double\<close>s in the source; it is
  taken here over the reals. Bucket counts are below \<open>2 ^ 53\<close> and so exact as
  \<open>double\<close>s, and the comparison with 1 comes out the same.
\<close>

definition hs_insert ::
  "'a \<Rightarrow> 'a hash_set \<Rightarrow> faults \<Rightarrow> (exn + iterator \<times> bool) \<times> 'a hash_set \<times> faults" where
  "hs_insert k s w =
    (case (if bucket_count s = 0 then ll_increase_size s w else (Inr (), s, w)) of
       (Inl e, s1, w1) \<Rightarrow> (Inl e, s1, w1)
     | (Inr u, s1, w1) \<Rightarrow>
        (case ll_bucket k s1 of
           Inl e \<Rightarrow> (Inl e, s1, w1)
         | Inr bucket_idx \<Rightarrow>
            (case ll_find k bucket_idx s1 of
               Inl e \<Rightarrow> (Inl e, s1, w1)
             | Inr it \<Rightarrow>
                if it \<noteq> hs_end s1 then (Inr (it, False), s1, w1)
                else if m_n_elements s1 = size_type_max then (Inl Overflow_error, s1, w1)
                else
                  (case (if real (m_n_elements s1 + 1) / real (bucket_count s1)
                              > get_max_load_factor
                         then (case ll_increase_size s1 w1 of
                                 (Inl e, s2, w2) \<Rightarrow> (Inl e, s2, w2)
                               | (Inr u, s2, w2) \<Rightarrow>
                                   (case ll_bucket k s2 of
                                      Inl e \<Rightarrow> (Inl e, s2, w2)
                                    | Inr idx \<Rightarrow> (Inr idx, s2, w2)))
                         else (Inr bucket_idx, s1, w1)) of
                     (Inl e, s2, w2) \<Rightarrow> (Inl e, s2, w2)
                   | (Inr idx, s2, w2) \<Rightarrow>
                      (case ll_unique_insert k idx s2 w2 of
                         (Inl e, s3, w3) \<Rightarrow> (Inl e, s3, w3)
                       | (Inr it_retval, s3, w3) \<Rightarrow>
                           (Inr (it_retval, True),
                            s3\<lparr>m_n_elements := m_n_elements s3 + 1\<rparr>, w3))))))"

text \<open>A sequence of \<open>insert\<close> calls, as the range constructor makes them.\<close>

fun insert_all ::
  "'a list \<Rightarrow> 'a hash_set \<Rightarrow> faults \<Rightarrow> (exn + unit) \<times> 'a hash_set \<times> faults" where
  "insert_all [] s w = (Inr (), s, w)"
| "insert_all (k # ks) s w =
    (case hs_insert k s w of
       (Inl e, s', w') \<Rightarrow> (Inl e, s', w')
     | (Inr r, s', w') \<Rightarrow> insert_all ks s' w')"

text \<open>
  The first loop of \<open>sanity_check\<close>: every key sits in the bucket that \<open>_bucket\<close>
  computes for it.
\<close>

definition well_placed :: "'a hash_set \<Rightarrow> bool" where
  "well_placed s =
    (\<forall>i < bucket_count s. \<forall>x \<in> set (m_container s ! i). ll_bucket x s = Inr i)"

text \<open>
  \<open>sanity_check\<close>: the keys are well placed, the keys counted over the buckets are
  \<open>m_n_elements\<close>, the bucket count is the size class \<open>get_size_index\<close> finds, and a
  full iteration takes \<open>m_n_elements\<close> steps. A failing assertion or a throwing hasher
  counts as a failed check.
\<close>

definition sanity_check :: "'a hash_set \<Rightarrow> bool" where
  "sanity_check s =
    (well_placed s
     \<and> sum_list (map length (m_container s)) = m_n_elements s
     \<and> (case get_size_index s of
          Inl e \<Rightarrow> False
        | Inr i \<Rightarrow> bucket_count s = table_sizes ! i)
     \<and> map_option length (iterate (m_n_elements s) s (hs_begin s)) = Some (m_n_elements s))"

text \<open>
  Invariant 1 of the table: no two stored keys are equal under the equality predicate;
  for every key at most one stored element compares equal to it.
\<close>

definition unique_keys :: "'a hash_set \<Rightarrow> bool" where
  "unique_keys s =
    (\<forall>k. length (filter (\<lambda>x. m_key_equal s x k) (elements s)) \<le> 1)"

text \<open>
  The invariant that \<open>insert\<close> maintains, for a table with hasher \<open>h\<close> and equality
  predicate \<open>eq\<close>.
\<close>

definition table_inv :: "('a \<Rightarrow> exn + nat) \<Rightarrow> ('a \<Rightarrow> 'a \<Rightarrow> bool) \<Rightarrow> 'a hash_set \<Rightarrow> bool" where
  "table_inv h eq s =
    (m_hasher s = h \<and> m_key_equal s = eq \<and> well_placed s \<and> unique_keys s \<and>
     m_n_elements s = length (elements s) \<and> bucket_count s \<in> set table_sizes)"

subsection \<open>The nodes of a bucket\<close>

text \<open>
  The layout of \<open>hash_set::list\<close>, for the operations that depend on it. A pointer to a
  node is null, the address of the static \<open>terminator\<close>, the address of the node that
  lies inside slot \<open>i\<close> of the bucket array, or the address of a node allocated with
  \<open>new\<close>.
\<close>

datatype ptr = Null | Terminator | Slot nat | Heap nat

text \<open>
  \<open>struct node\<close>: raw storage for one key (\<open>None\<close> while no key is constructed in it)
  and the link. An empty bucket has a null link in its inline node; the last node of a
  chain links to the terminator.
\<close>

record 'a node =
  m_storage :: "'a option"
  m_next :: ptr

text \<open>
  The memory a table owns: the array of buckets, each one being its inline node
  (\<open>list::m_node\<close>), and the nodes on the free store.
\<close>

record 'a store =
  buckets :: "'a node list"
  heap_nodes :: "nat \<Rightarrow> 'a node option"

text \<open>
  Reading the node a pointer refers to; \<open>None\<close> where dereferencing it is undefined.
  The terminator is a default-constructed node.
\<close>

definition node_at :: "'a store \<Rightarrow> ptr \<Rightarrow> 'a node option" where
  "node_at st p =
    (case p of
       Null \<Rightarrow> None
     | Terminator \<Rightarrow> Some \<lparr>m_storage = None, m_next = Null\<rparr>
     | Slot i \<Rightarrow> if i < length (buckets st) then Some (buckets st ! i) else None
     | Heap a \<Rightarrow> heap_nodes st a)"

text \<open>The assignment \<open>p->m_next = q\<close>; \<open>None\<close> where it is undefined.\<close>

definition set_next :: "'a store \<Rightarrow> ptr \<Rightarrow> ptr \<Rightarrow> 'a store option" where
  "set_next st p q =
    (case p of
       Slot i \<Rightarrow>
         if i < length (buckets st)
         then Some (st\<lparr>buckets := (buckets st)[i := (buckets st ! i)\<lparr>m_next := q\<rparr>]\<rparr>)
         else None
     | Heap a \<Rightarrow>
         (case heap_nodes st a of
            None \<Rightarrow> None
          | Some n \<Rightarrow> Some (st\<lparr>heap_nodes := (heap_nodes st)(a \<mapsto> n\<lparr>m_next := q\<rparr>)\<rparr>))
     | _ \<Rightarrow> None)"

text \<open>\<open>list::begin\<close>, \<open>list::end\<close> and \<open>list::empty\<close> of the bucket in slot \<open>idx\<close>.\<close>

definition list_begin :: "nat \<Rightarrow> ptr" where
  "list_begin idx = Slot idx"

definition list_end :: "'a store \<Rightarrow> nat \<Rightarrow> ptr" where
  "list_end st idx = (if m_next (buckets st ! idx) \<noteq> Null then Terminator else Slot idx)"

definition list_empty :: "'a store \<Rightarrow> nat \<Rightarrow> bool" where
  "list_empty st idx = (m_next (buckets st ! idx) = Null)"

text \<open>
  What a \<open>list::insert\<close> that succeeds does to the nodes: \<open>fresh\<close> is the address that
  \<open>new node()\<close> has returned. A non-empty bucket gets the new node linked behind the
  inline one; an empty bucket takes the key into the inline node. (When \<open>new node()\<close>
  or the constructor of the key throws, no node is changed; see \<open>list_insert\<close>.)
\<close>

definition list_insert_node :: "'a \<Rightarrow> nat \<Rightarrow> nat \<Rightarrow> 'a store \<Rightarrow> ptr \<times> 'a store" where
  "list_insert_node item idx fresh st =
    (let m_node = buckets st ! idx in
     if m_next m_node \<noteq> Null
     then (Heap fresh,
           st\<lparr>heap_nodes := (heap_nodes st)
                 (fresh \<mapsto> \<lparr>m_storage = Some item, m_next = m_next m_node\<rparr>),
              buckets := (buckets st)[idx := m_node\<lparr>m_next := Heap fresh\<rparr>]\<rparr>)
     else (Slot idx,
           st\<lparr>buckets := (buckets st)[idx := \<lparr>m_storage = Some item, m_next = Terminator\<rparr>]\<rparr>))"

text \<open>
  The loop of \<open>_erase\<close> for an element that is not the first of its bucket: \<open>b_it\<close>
  runs from the second node to the end of the chain, \<open>prev_b_it\<close> one node behind.
  At the node \<open>target\<close> the predecessor is linked to the successor, the key is destroyed
  and the node deleted. The result is \<open>prev_b_it\<close> and the memory when the loop is left.
  On a chain that never reaches the terminator the loop does not end: the value is
  \<open>None\<close>.
\<close>

partial_function (option) erase_scan ::
  "'a store \<Rightarrow> ptr \<Rightarrow> ptr \<Rightarrow> ptr \<Rightarrow> (exn + ptr \<times> 'a store) option" where
  "erase_scan st target prev_b_it b_it =
    (if b_it = Terminator then Some (Inr (prev_b_it, st))
     else case node_at st b_it of
            None \<Rightarrow> Some (Inl Assertion_failure)
          | Some n \<Rightarrow>
              if b_it = target
              then (case b_it of
                      Heap a \<Rightarrow>
                        (case set_next st prev_b_it (m_next n) of
                           None \<Rightarrow> Some (Inl Assertion_failure)
                         | Some st' \<Rightarrow>
                             Some (Inr (prev_b_it,
                               st'\<lparr>heap_nodes := (heap_nodes st')(a := None)\<rparr>)))
                    | _ \<Rightarrow> Some (Inl Assertion_failure))
              else (case node_at st prev_b_it of
                      None \<Rightarrow> Some (Inl Assertion_failure)
                    | Some pn \<Rightarrow> erase_scan st target (m_next pn) (m_next n)))"

text \<open>
  \<open>_erase\<close>, for the iterator with bucket index \<open>fst it\<close> and node pointer \<open>snd it\<close>;
  the result is the local iterator it returns and the memory afterwards. The first
  branch is the one for the key in the inline node: its key is destroyed; if it was
  the only one the link becomes null, otherwise the key of the second node is moved
  into the inline node, the second node is destroyed and deleted, and the inline node
  is linked to what followed the second.
\<close>

definition ll_erase :: "nat \<times> ptr \<Rightarrow> 'a store \<Rightarrow> (exn + ptr \<times> 'a store) option" where
  "ll_erase it st =
    (let idx = fst it; ptr = snd it in
     if \<not> idx < length (buckets st) then Some (Inl Assertion_failure)
     else
       let bucket = buckets st ! idx in
       if m_next bucket = Null \<or> ptr = list_end st idx then Some (Inl Assertion_failure)
       else if ptr = Slot idx then
         (if m_next bucket = Terminator
          then let st' = st\<lparr>buckets := (buckets st)[idx := \<lparr>m_storage = None, m_next = Null\<rparr>]\<rparr>
               in Some (Inr (list_end st' idx, st'))
          else (case m_next bucket of
                  Heap a \<Rightarrow>
                    (case heap_nodes st a of
                       None \<Rightarrow> Some (Inl Assertion_failure)
                     | Some second \<Rightarrow>
                         let tmp = m_next second;
                             st' = st\<lparr>buckets := (buckets st)
                                       [idx := \<lparr>m_storage = m_storage second, m_next = tmp\<rparr>],
                                     heap_nodes := (heap_nodes st)(a := None)\<rparr>
                         in Some (Inr (list_begin idx, st')))
                | _ \<Rightarrow> Some (Inl Assertion_failure)))
       else
         (case erase_scan st ptr (list_begin idx) (m_next bucket) of
            None \<Rightarrow> None
          | Some (Inl e) \<Rightarrow> Some (Inl e)
          | Some (Inr (prev_b_it, st')) \<Rightarrow>
              (case node_at st' prev_b_it of
                 None \<Rightarrow> Some (Inl Assertion_failure)
               | Some pn \<Rightarrow>
                   Some (Inr (if m_next pn = Terminator then Terminator else prev_b_it, st')))))"

text \<open>
  What a bucket holds: \<open>chain st p xs\<close> says that the heap nodes from \<open>p\<close> up to the
  terminator carry the keys \<open>xs\<close>, and \<open>bucket_holds st idx xs\<close> that the bucket in
  slot \<open>idx\<close> carries \<open>xs\<close>, the first one inline. This connects the nodes with the
  chains of the table above.
\<close>

primrec chain :: "'a store \<Rightarrow> ptr \<Rightarrow> 'a list \<Rightarrow> bool" where
  "chain st p [] = (p = Terminator)"
| "chain st p (x # xs) =
    (case p of
       Heap a \<Rightarrow>
         (case heap_nodes st a of
            None \<Rightarrow> False
          | Some n \<Rightarrow> m_storage n = Some x \<and> chain st (m_next n) xs)
     | _ \<Rightarrow> False)"

definition bucket_holds :: "'a store \<Rightarrow> nat \<Rightarrow> 'a list \<Rightarrow> bool" where
  "bucket_holds st idx xs =
    (idx < length (buckets st) \<and>
     (case xs of
        [] \<Rightarrow> m_next (buckets st ! idx) = Null
      | x # rest \<Rightarrow>
          m_storage (buckets st ! idx) = Some x \<and> chain st (m_next (buckets st ! idx)) rest))"

section \<open>The hybrid integer\<close>

text \<open>
  The header \<open>mp_integer.hpp\<close> is not among the sources; only its tests
  (\<open>tests/mp_integer_02.cpp\<close>) are. Every definition of this section is therefore
  written from the specification and says so.
\<close>

text \<open>
  Modelled from the spec: the layout parameters of the static storage, which
  \<open>mp_integer.hpp\<close> would fix (section 3: a compile-time bit width and a fixed number of
  limbs). They are kept as parameters.
\<close>

record static_params =
  limb_bits :: nat
  n_limbs :: nat

text \<open>
  Modelled from the spec: the static storage of \<open>mp_integer.hpp\<close> (section 3): a fixed
  array of limbs plus a signed size whose magnitude is the number of limbs in use and
  whose sign is the sign of the value.
\<close>

record static_int =
  st_limbs :: "nat list"
  st_size :: int

text \<open>
  Modelled from the spec: the largest exponent \<open>pow\<close> accepts. The spec is silent on
  it; the test \<open>mp_integer_pow_tester\<close> expects an invalid-argument failure for the
  exponent \<open>ULONG_MAX + 1\<close>. 64-bit \<open>unsigned long\<close>.
\<close>

definition ulong_max :: nat where
  "ulong_max = 2 ^ 64 - 1"

text \<open>
  Modelled from the spec: the static capacity (section 4.2, "the fixed limb capacity"):
  magnitudes below it fit the limbs.
\<close>

definition capacity :: "static_params \<Rightarrow> nat" where
  "capacity P = 2 ^ (limb_bits P * n_limbs P)"

text \<open>
  Modelled from the spec: writing a magnitude into \<open>n\<close> limbs of \<open>b\<close> bits, least
  significant first, and reading it back (section 3, the limb array).
\<close>

fun limbs_of :: "nat \<Rightarrow> nat \<Rightarrow> nat \<Rightarrow> nat list" where
  "limbs_of b 0 m = []"
| "limbs_of b (Suc n) m = (m mod 2 ^ b) # limbs_of b n (m div 2 ^ b)"

fun magnitude :: "nat \<Rightarrow> nat list \<Rightarrow> nat" where
  "magnitude b [] = 0"
| "magnitude b (l # ls) = l + 2 ^ b * magnitude b ls"

text \<open>
  Modelled from the spec: the number of limbs in use, up to the most significant
  nonzero limb (section 3: no nonzero limb beyond the size).
\<close>

definition used_limbs :: "nat list \<Rightarrow> nat" where
  "used_limbs ls = length (dropWhile (\<lambda>l. l = 0) (rev ls))"

text \<open>
  Modelled from the spec: the value, the magnitude and the sign of a static integer
  (section 3: zero size is zero, negative size a negative value; section 4.2: sign and
  magnitude are stored separately).
\<close>

definition static_magnitude :: "static_params \<Rightarrow> static_int \<Rightarrow> nat" where
  "static_magnitude P s = magnitude (limb_bits P) (take (nat \<bar>st_size s\<bar>) (st_limbs s))"

definition static_negative :: "static_int \<Rightarrow> bool" where
  "static_negative s = (st_size s < 0)"

definition static_value :: "static_params \<Rightarrow> static_int \<Rightarrow> int" where
  "static_value P s = sgn (st_size s) * int (static_magnitude P s)"

text \<open>Modelled from the spec: a magnitude with a sign flag, as an integer.\<close>

definition signed :: "bool \<Rightarrow> nat \<Rightarrow> int" where
  "signed neg m = (if neg then - int m else int m)"

text \<open>
  Modelled from the spec: construction of the static storage from an integer (section
  4.2): the overflow kind when the value does not fit.
\<close>

definition static_of_int :: "static_params \<Rightarrow> int \<Rightarrow> exn + static_int" where
  "static_of_int P v =
    (if nat \<bar>v\<bar> < capacity P
     then let ls = limbs_of (limb_bits P) (n_limbs P) (nat \<bar>v\<bar>)
          in Inr \<lparr>st_limbs = ls, st_size = sgn v * int (used_limbs ls)\<rparr>
     else Inl Overflow_error)"

text \<open>
  Modelled from the spec: static addition, subtraction and multiplication (section
  4.2): the result is computed in a wider intermediate and overflow is signalled when
  it exceeds the limb capacity.
\<close>

definition static_add :: "static_params \<Rightarrow> static_int \<Rightarrow> static_int \<Rightarrow> exn + static_int" where
  "static_add P a b = static_of_int P (static_value P a + static_value P b)"

definition static_sub :: "static_params \<Rightarrow> static_int \<Rightarrow> static_int \<Rightarrow> exn + static_int" where
  "static_sub P a b = static_of_int P (static_value P a - static_value P b)"

definition static_mul :: "static_params \<Rightarrow> static_int \<Rightarrow> static_int \<Rightarrow> exn + static_int" where
  "static_mul P a b = static_of_int P (static_value P a * static_value P b)"

text \<open>
  Modelled from the spec: static division and remainder on sign and magnitude (section
  4.4: the quotient is truncated toward zero, the remainder has the sign of the
  dividend).
\<close>

definition static_div :: "static_params \<Rightarrow> static_int \<Rightarrow> static_int \<Rightarrow> exn + static_int" where
  "static_div P a b =
    static_of_int P
      (signed (static_negative a \<noteq> static_negative b)
         (static_magnitude P a div static_magnitude P b))"

definition static_mod :: "static_params \<Rightarrow> static_int \<Rightarrow> static_int \<Rightarrow> exn + static_int" where
  "static_mod P a b =
    static_of_int P
      (signed (static_negative a) (static_magnitude P a mod static_magnitude P b))"

text \<open>
  Modelled from the spec: the external arbitrary-precision library that the dynamic
  storage delegates to (section 4.3) and that the tests use as the reference:
  \<open>mpz_add\<close>, \<open>mpz_sub\<close>, \<open>mpz_mul\<close>, and \<open>mpz_tdiv_q\<close>, \<open>mpz_tdiv_r\<close>, which
  round the quotient toward zero and give the remainder the sign of the dividend.
\<close>

definition mpz_add :: "int \<Rightarrow> int \<Rightarrow> int" where
  "mpz_add a b = a + b"

definition mpz_sub :: "int \<Rightarrow> int \<Rightarrow> int" where
  "mpz_sub a b = a - b"

definition mpz_mul :: "int \<Rightarrow> int \<Rightarrow> int" where
  "mpz_mul a b = a * b"

definition mpz_tdiv_q :: "int \<Rightarrow> int \<Rightarrow> int" where
  "mpz_tdiv_q n d = sgn n * sgn d * (\<bar>n\<bar> div \<bar>d\<bar>)"

definition mpz_tdiv_r :: "int \<Rightarrow> int \<Rightarrow> int" where
  "mpz_tdiv_r n d = sgn n * (\<bar>n\<bar> mod \<bar>d\<bar>)"

text \<open>
  Modelled from the spec: the hybrid integer of \<open>mp_integer.hpp\<close> (sections 3 and 4.4),
  a tagged union of the static storage and the dynamic storage, the latter a handle to
  an integer of the external library.
\<close>

datatype mp_integer = Static static_int | Dynamic int

text \<open>Modelled from the spec: the value a hybrid integer stands for.\<close>

fun mp_value :: "static_params \<Rightarrow> mp_integer \<Rightarrow> int" where
  "mp_value P (Static s) = static_value P s"
| "mp_value P (Dynamic z) = z"

text \<open>
  Modelled from the spec: \<open>is_static()\<close> and \<open>promote()\<close> (section 4.4); promotion
  copies the static value into a dynamic one and does nothing to a dynamic value.
\<close>

fun is_static :: "mp_integer \<Rightarrow> bool" where
  "is_static (Static s) = True"
| "is_static (Dynamic z) = False"

fun promote :: "static_params \<Rightarrow> mp_integer \<Rightarrow> mp_integer" where
  "promote P (Static s) = Dynamic (static_value P s)"
| "promote P (Dynamic z) = Dynamic z"

text \<open>
  Modelled from the spec: construction from a native integer (sections 3 and 4.4):
  static when the value fits, dynamic otherwise. \<open>hybrid P promoted v\<close> is the
  integer constructed from \<open>v\<close>, with \<open>promote()\<close> called on it when \<open>promoted\<close>.
\<close>

definition mp_of_int :: "static_params \<Rightarrow> int \<Rightarrow> mp_integer" where
  "mp_of_int P v = (case static_of_int P v of Inr s \<Rightarrow> Static s | Inl e \<Rightarrow> Dynamic v)"

definition hybrid :: "static_params \<Rightarrow> bool \<Rightarrow> int \<Rightarrow> mp_integer" where
  "hybrid P promoted v = (if promoted then promote P (mp_of_int P v) else mp_of_int P v)"

text \<open>Modelled from the spec: the sign query and the comparison for equality.\<close>

definition mp_sign :: "static_params \<Rightarrow> mp_integer \<Rightarrow> int" where
  "mp_sign P a = sgn (mp_value P a)"

definition mp_eq :: "static_params \<Rightarrow> mp_integer \<Rightarrow> mp_integer \<Rightarrow> bool" where
  "mp_eq P a b = (mp_value P a = mp_value P b)"

text \<open>
  Modelled from the spec: the dispatch of a binary operation (section 4.4): two static
  operands take the static path; when it reports overflow both are promoted and the
  operation is done again in the external library. A dynamic operand makes the
  operation dynamic, and nothing is ever demoted.
\<close>

definition hybrid_op ::
  "static_params \<Rightarrow> (static_params \<Rightarrow> static_int \<Rightarrow> static_int \<Rightarrow> exn + static_int) \<Rightarrow>
   (int \<Rightarrow> int \<Rightarrow> int) \<Rightarrow> mp_integer \<Rightarrow> mp_integer \<Rightarrow> mp_integer" where
  "hybrid_op P static_op mpz_op a b =
    (case (a, b) of
       (Static x, Static y) \<Rightarrow>
         (case static_op P x y of
            Inr r \<Rightarrow> Static r
          | Inl e \<Rightarrow> Dynamic (mpz_op (mp_value P (promote P a)) (mp_value P (promote P b))))
     | _ \<Rightarrow> Dynamic (mpz_op (mp_value P a) (mp_value P b)))"

text \<open>Modelled from the spec: the operators \<open>+\<close>, \<open>-\<close> and \<open>*\<close> (section 4.4).\<close>

definition mp_add :: "static_params \<Rightarrow> mp_integer \<Rightarrow> mp_integer \<Rightarrow> mp_integer" where
  "mp_add P a b = hybrid_op P static_add mpz_add a b"

definition mp_sub :: "static_params \<Rightarrow> mp_integer \<Rightarrow> mp_integer \<Rightarrow> mp_integer" where
  "mp_sub P a b = hybrid_op P static_sub mpz_sub a b"

definition mp_mul :: "static_params \<Rightarrow> mp_integer \<Rightarrow> mp_integer \<Rightarrow> mp_integer" where
  "mp_mul P a b = hybrid_op P static_mul mpz_mul a b"

text \<open>
  Modelled from the spec: the operators \<open>/\<close> and \<open>%\<close> (section 4.4): the zero-division
  kind for a zero divisor, the truncated quotient and its remainder otherwise.
\<close>

definition mp_div :: "static_params \<Rightarrow> mp_integer \<Rightarrow> mp_integer \<Rightarrow> exn + mp_integer" where
  "mp_div P a b =
    (if mp_sign P b = 0 then Inl Zero_division_error
     else Inr (hybrid_op P static_div mpz_tdiv_q a b))"

definition mp_mod :: "static_params \<Rightarrow> mp_integer \<Rightarrow> mp_integer \<Rightarrow> exn + mp_integer" where
  "mp_mod P a b =
    (if mp_sign P b = 0 then Inl Zero_division_error
     else Inr (hybrid_op P static_mod mpz_tdiv_r a b))"

text \<open>
  Modelled from the spec: repeated squaring on the magnitude, the non-negative case of
  \<open>pow\<close> (section 4.4).
\<close>

function pow_magnitude :: "nat \<Rightarrow> nat \<Rightarrow> nat" where
  "pow_magnitude b e =
    (if e = 0 then 1
     else if even e then pow_magnitude (b * b) (e div 2)
     else b * pow_magnitude (b * b) (e div 2))"
  by pat_completeness auto
termination
  by (relation "measure (\<lambda>(b, e). e)") auto

declare pow_magnitude.simps [simp del]

text \<open>
  Modelled from the spec: \<open>pow\<close> (section 4.4). A non-negative exponent gives the power,
  by repeated squaring on the magnitude, negative for a negative base and an odd
  exponent; the invalid-argument failure beyond \<open>unsigned long\<close> is what the tests
  show. For a negative exponent: base zero fails with the zero-division kind, a base of
  magnitude one gives its power, every other base gives zero.
\<close>

definition mp_pow :: "static_params \<Rightarrow> mp_integer \<Rightarrow> mp_integer \<Rightarrow> exn + mp_integer" where
  "mp_pow P base exponent =
    (let b = mp_value P base; n = mp_value P exponent in
     if 0 \<le> n then
       (if int ulong_max < n then Inl Invalid_argument
        else Inr (mp_of_int P
               (signed (b < 0 \<and> odd n) (pow_magnitude (nat \<bar>b\<bar>) (nat n)))))
     else if b = 0 then Inl Zero_division_error
     else if \<bar>b\<bar> = 1 then Inr (mp_of_int P (if b < 0 \<and> odd n then - 1 else 1))
     else Inr (mp_of_int P 0))"
section \<open>Properties of the hash set\<close>

subsection \<open>Size classes\<close>

lemma table_sizes_length: "length table_sizes = n_available_sizes"
  by (simp add: table_sizes_def n_available_sizes_def)

lemma lower_bound_le: "lower_bound xs v \<le> length xs"
  by (induction xs) auto

lemma lower_bound_ge: "lower_bound xs v < length xs \<Longrightarrow> v \<le> xs ! lower_bound xs v"
  by (induction xs) auto

lemma lower_bound_before: "j < lower_bound xs v \<Longrightarrow> xs ! j < v"
proof (induction xs arbitrary: j)
  case Nil
  then show ?case by simp
next
  case (Cons x xs)
  then show ?case by (cases j) (auto split: if_splits)
qed

lemma lower_bound_least:
  assumes "sorted xs" "c \<in> set xs" "v \<le> c"
  shows "lower_bound xs v < length xs \<and> xs ! lower_bound xs v \<le> c"
proof -
  from assms(2) obtain j where j: "j < length xs" "xs ! j = c"
    by (auto simp: in_set_conv_nth)
  have "\<not> j < lower_bound xs v"
    using lower_bound_before [of j xs v] j assms(3) by auto
  then have le: "lower_bound xs v \<le> j" by simp
  with j have "lower_bound xs v < length xs" by simp
  moreover have "xs ! lower_bound xs v \<le> xs ! j"
    using assms(1) le j(1) by (simp add: sorted_iff_nth_mono)
  ultimately show ?thesis using j by simp
qed

lemma sorted_table_sizes: "sorted table_sizes"
  by (simp add: table_sizes_def)

lemma strict_sorted_table_sizes: "sorted_wrt (<) table_sizes"
  by (simp add: table_sizes_def)

lemma get_size_from_hint_Inr:
  assumes "get_size_from_hint hint = Inr n"
  shows "n \<in> set table_sizes \<and> hint \<le> n \<and> (\<forall>c \<in> set table_sizes. hint \<le> c \<longrightarrow> n \<le> c)"
proof -
  let ?i = "lower_bound table_sizes hint"
  from assms have i: "?i \<noteq> length table_sizes" and n: "n = table_sizes ! ?i"
    by (auto simp: get_size_from_hint_def Let_def split: if_splits)
  from i lower_bound_le [of table_sizes hint] have lt: "?i < length table_sizes" by simp
  then have "n \<in> set table_sizes" using n by simp
  moreover have "hint \<le> n" using lower_bound_ge [OF lt] n by simp
  moreover have "\<forall>c \<in> set table_sizes. hint \<le> c \<longrightarrow> n \<le> c"
    using lower_bound_least [OF sorted_table_sizes] n by blast
  ultimately show ?thesis by blast
qed

subsection \<open>Iteration\<close>

text \<open>
  A full iteration visits the keys of the buckets in ascending order of the bucket
  index, each chain from its first node on, and then reaches \<open>end()\<close>.
\<close>

lemma scan_nonempty_props:
  "idx \<le> length c \<Longrightarrow>
   idx \<le> scan_nonempty c idx \<and> scan_nonempty c idx \<le> length c \<and>
   concat (drop (scan_nonempty c idx) c) = concat (drop idx c) \<and>
   (scan_nonempty c idx < length c \<longrightarrow> c ! scan_nonempty c idx \<noteq> [])"
proof (induction c idx rule: scan_nonempty.induct)
  case (1 c idx)
  show ?case
  proof (cases "idx < length c")
    case False
    with "1.prems" show ?thesis by (subst (1 2 3 4 5) scan_nonempty.simps) simp
  next
    case lt: True
    show ?thesis
    proof (cases "c ! idx \<noteq> []")
      case True
      with lt show ?thesis by (subst (1 2 3 4 5) scan_nonempty.simps) simp
    next
      case False
      then have e: "c ! idx = []" by simp
      from lt have "Suc idx \<le> length c" by simp
      with "1.IH" lt False have ih:
        "idx + 1 \<le> scan_nonempty c (idx + 1)" "scan_nonempty c (idx + 1) \<le> length c"
        "concat (drop (scan_nonempty c (idx + 1)) c) = concat (drop (idx + 1) c)"
        "scan_nonempty c (idx + 1) < length c \<longrightarrow> c ! scan_nonempty c (idx + 1) \<noteq> []"
        by simp_all
      have s: "scan_nonempty c idx = scan_nonempty c (idx + 1)"
        using lt e by (subst scan_nonempty.simps) simp
      have "concat (drop idx c) = concat (drop (idx + 1) c)"
        using lt e by (simp add: Cons_nth_drop_Suc [symmetric])
      with ih show ?thesis unfolding s by simp
    qed
  qed
qed

lemma iterate_end: "iterate n s (hs_end s) = Some []"
  by (cases n) simp_all

lemma iterate_from:
  "idx < bucket_count s \<Longrightarrow> pos < length (m_container s ! idx) \<Longrightarrow>
   length (drop pos (m_container s ! idx)) + length (concat (drop (Suc idx) (m_container s))) \<le> n \<Longrightarrow>
   iterate n s \<lparr>m_idx = idx, m_it = Some pos\<rparr> =
     Some (drop pos (m_container s ! idx) @ concat (drop (Suc idx) (m_container s)))"
proof (induction n arbitrary: idx pos)
  case 0
  then show ?case by simp
next
  case (Suc n)
  let ?c = "m_container s"
  let ?it = "\<lparr>m_idx = idx, m_it = Some pos\<rparr>"
  have ne: "?it \<noteq> hs_end s" by (simp add: hs_end_def)
  have d: "dereference ?it s = Inr (?c ! idx ! pos)"
    using Suc.prems by (simp add: dereference_def)
  have dr: "drop pos (?c ! idx) = (?c ! idx ! pos) # drop (Suc pos) (?c ! idx)"
    using Suc.prems(2) by (simp add: Cons_nth_drop_Suc)
  show ?case
  proof (cases "pos + 1 = length (?c ! idx)")
    case False
    with Suc.prems have lt: "Suc pos < length (?c ! idx)" by simp
    have i: "increment ?it s = Inr \<lparr>m_idx = idx, m_it = Some (Suc pos)\<rparr>"
      using Suc.prems False by (simp add: increment_def)
    have "length (drop (Suc pos) (?c ! idx)) + length (concat (drop (Suc idx) ?c)) \<le> n"
      using Suc.prems(3) lt Suc.prems(2) by simp
    from Suc.IH [OF Suc.prems(1) lt this] show ?thesis
      using ne d i dr by simp
  next
    case True
    define idx' where "idx' = scan_nonempty ?c (idx + 1)"
    have le: "idx + 1 \<le> length ?c" using Suc.prems(1) by (simp add: bucket_count_def)
    from scan_nonempty_props [OF le] have sp:
      "idx' \<le> length ?c" "concat (drop idx' ?c) = concat (drop (Suc idx) ?c)"
      "idx' < length ?c \<longrightarrow> ?c ! idx' \<noteq> []"
      by (simp_all add: idx'_def)
    have i: "increment ?it s =
        Inr \<lparr>m_idx = idx', m_it = (if idx' = bucket_count s then None else Some 0)\<rparr>"
      using Suc.prems True by (simp add: increment_def idx'_def)
    have e: "drop (Suc pos) (?c ! idx) = []" using True by simp
    show ?thesis
    proof (cases "idx' = bucket_count s")
      case True
      then have "concat (drop (Suc idx) ?c) = []"
        using sp(2) by (simp add: bucket_count_def)
      moreover have "\<lparr>m_idx = idx', m_it = None\<rparr> = hs_end s"
        using True by (simp add: hs_end_def)
      ultimately show ?thesis
        using ne d i dr e True by (simp add: iterate_end)
    next
      case False
      with sp(1) have lt': "idx' < bucket_count s" by (simp add: bucket_count_def)
      with sp(3) have pos': "0 < length (?c ! idx')" by (simp add: bucket_count_def)
      have split: "concat (drop idx' ?c) = ?c ! idx' @ concat (drop (Suc idx') ?c)"
        using lt' by (simp add: bucket_count_def Cons_nth_drop_Suc [symmetric])
      have "length (drop 0 (?c ! idx')) + length (concat (drop (Suc idx') ?c)) \<le> n"
      proof -
        have "length (?c ! idx') + length (concat (drop (Suc idx') ?c))
            = length (concat (drop (Suc idx) ?c))"
          using split sp(2) by (metis length_append)
        then show ?thesis using Suc.prems(3) dr by simp
      qed
      from Suc.IH [OF lt' pos' this] show ?thesis
        using ne d i dr e False split sp(2) by simp
    qed
  qed
qed

lemma iterate_elements:
  assumes "length (elements s) \<le> n"
  shows "iterate n s (hs_begin s) = Some (elements s)"
proof -
  let ?c = "m_container s"
  define idx where "idx = scan_nonempty ?c 0"
  from scan_nonempty_props [of 0 ?c] have sp:
    "idx \<le> length ?c" "concat (drop idx ?c) = elements s" "idx < length ?c \<longrightarrow> ?c ! idx \<noteq> []"
    by (simp_all add: idx_def elements_def)
  have b: "hs_begin s = \<lparr>m_idx = idx, m_it = (if idx \<noteq> bucket_count s then Some 0 else None)\<rparr>"
    by (simp add: hs_begin_def idx_def)
  show ?thesis
  proof (cases "idx = bucket_count s")
    case True
    then have "elements s = []" using sp(2) by (simp add: bucket_count_def)
    moreover have "hs_begin s = hs_end s" using b True by (simp add: hs_end_def)
    ultimately show ?thesis by (simp add: iterate_end)
  next
    case False
    with sp(1) have lt: "idx < bucket_count s" by (simp add: bucket_count_def)
    with sp(3) have pos: "0 < length (?c ! idx)" by (simp add: bucket_count_def)
    have split: "concat (drop idx ?c) = ?c ! idx @ concat (drop (Suc idx) ?c)"
      using lt by (simp add: bucket_count_def Cons_nth_drop_Suc [symmetric])
    have "length (drop 0 (?c ! idx)) + length (concat (drop (Suc idx) ?c)) \<le> n"
    proof -
      have "length (?c ! idx) + length (concat (drop (Suc idx) ?c)) = length (elements s)"
        using split sp(2) by (metis length_append)
      then show ?thesis using assms by simp
    qed
    from iterate_from [OF lt pos this] show ?thesis
      using b False split sp(2) by simp
  qed
qed

subsection \<open>The schedule of failures\<close>

lemma fallible_step_fault_free:
  "fault_free w \<Longrightarrow> \<exists>w'. fallible_step w = (Inr (), w') \<and> fault_free w'"
  by (cases w rule: fallible_step.cases) (auto simp: fault_free_def)

lemma fallible_step_not_assertion: "fallible_step w = (Inl e, w') \<Longrightarrow> e \<noteq> Assertion_failure"
  by (cases w rule: fallible_step.cases; cases "the (hd w)") auto

subsection \<open>Low-level insertion and the loop of rehash\<close>

lemma mset_concat_update:
  "i < length xss \<Longrightarrow>
   mset (concat (xss[i := ys])) + mset (xss ! i) = mset (concat xss) + mset ys"
proof (induction xss arbitrary: i)
  case Nil
  then show ?case by simp
next
  case (Cons xs xss)
  then show ?case by (cases i) (auto simp: ac_simps)
qed

lemma list_insert_Inr:
  assumes "list_insert k xs w = (Inr (ch, pos), w')"
  shows "mset ch = add_mset k (mset xs)" "set ch = insert k (set xs)"
    "pos < length ch" "ch ! pos = k"
    "ch = (case xs of [] \<Rightarrow> [k] | first # rest \<Rightarrow> first # k # rest)"
    "pos = (if xs = [] then 0 else 1)"
  using assms by (cases xs; auto split: sum.splits prod.splits)+

lemma list_insert_Inl:
  "list_insert k xs w = (Inl e, w') \<Longrightarrow> e \<noteq> Assertion_failure"
  by (cases xs) (auto split: sum.splits prod.splits dest: fallible_step_not_assertion)

lemma list_insert_fault_free:
  assumes "fault_free w"
  shows "\<exists>ch pos w'. list_insert k xs w = (Inr (ch, pos), w') \<and> fault_free w'"
proof (cases xs)
  case Nil
  with fallible_step_fault_free [OF assms] show ?thesis by auto
next
  case (Cons first rest)
  from fallible_step_fault_free [OF assms] obtain w1 where
    1: "fallible_step w = (Inr (), w1)" "fault_free w1" by blast
  from fallible_step_fault_free [OF 1(2)] obtain w2 where
    2: "fallible_step w1 = (Inr (), w2)" "fault_free w2" by blast
  from Cons 1 2 show ?thesis by simp
qed

lemma ll_unique_insert_Inr:
  assumes "ll_unique_insert k idx s w = (Inr it, s', w')"
  shows "idx < bucket_count s"
    and "\<exists>ch pos. list_insert k (m_container s ! idx) w = (Inr (ch, pos), w') \<and>
           s' = s\<lparr>m_container := (m_container s)[idx := ch]\<rparr> \<and>
           it = \<lparr>m_idx = idx, m_it = Some pos\<rparr>"
  using assms by (auto simp: ll_unique_insert_def split: if_splits prod.splits sum.splits)

lemma ll_unique_insert_Inl:
  assumes "ll_unique_insert k idx s w = (Inl e, s', w')"
  shows "s' = s"
    and "e \<noteq> Assertion_failure \<Longrightarrow>
         idx < bucket_count s \<and> list_insert k (m_container s ! idx) w = (Inl e, w')"
  using assms by (auto simp: ll_unique_insert_def split: if_splits prod.splits sum.splits)

lemma ll_unique_insert_fault_free:
  assumes "idx < bucket_count s" "fault_free w"
  shows "\<exists>it s' w'. ll_unique_insert k idx s w = (Inr it, s', w') \<and> fault_free w'"
proof -
  from list_insert_fault_free [OF assms(2), of k "m_container s ! idx"] obtain ch pos w'
    where "list_insert k (m_container s ! idx) w = (Inr (ch, pos), w')" "fault_free w'"
    by blast
  with assms(1) show ?thesis by (simp add: ll_unique_insert_def)
qed

lemma ll_unique_insert_elements:
  assumes "ll_unique_insert k idx s w = (Inr it, s', w')"
  shows "mset (elements s') = add_mset k (mset (elements s))"
proof -
  from ll_unique_insert_Inr [OF assms] obtain ch pos where i: "idx < bucket_count s"
    and l: "list_insert k (m_container s ! idx) w = (Inr (ch, pos), w')"
    and s': "s' = s\<lparr>m_container := (m_container s)[idx := ch]\<rparr>"
    by blast
  have "mset (elements s') + mset (m_container s ! idx) = mset (elements s) + mset ch"
    using i mset_concat_update [of idx "m_container s"]
    by (simp add: s' elements_def bucket_count_def)
  then show ?thesis by (simp add: list_insert_Inr(1) [OF l])
qed

lemma ll_unique_insert_position:
  assumes "ll_unique_insert k idx s w = (Inr it, s', w')"
  shows "m_idx it = idx \<and> (\<exists>pos. m_it it = Some pos \<and> pos < length (m_container s' ! idx) \<and>
           m_container s' ! idx ! pos = k)"
proof -
  from ll_unique_insert_Inr [OF assms] obtain ch pos where i: "idx < bucket_count s"
    and l: "list_insert k (m_container s ! idx) w = (Inr (ch, pos), w')"
    and s': "s' = s\<lparr>m_container := (m_container s)[idx := ch]\<rparr>"
    and it: "it = \<lparr>m_idx = idx, m_it = Some pos\<rparr>"
    by blast
  from i list_insert_Inr(3,4) [OF l] show ?thesis
    by (simp add: s' it bucket_count_def)
qed

lemma ll_unique_insert_frame:
  assumes "ll_unique_insert k idx s w = (r, s', w')"
  shows "bucket_count s' = bucket_count s" "m_hasher s' = m_hasher s"
    "m_key_equal s' = m_key_equal s" "m_n_elements s' = m_n_elements s"
  using assms
  by (auto simp: ll_unique_insert_def bucket_count_def split: if_splits prod.splits sum.splits)

lemma ll_bucket_Inr:
  "ll_bucket k s = Inr i \<Longrightarrow> i < bucket_count s \<and> (\<exists>h. m_hasher s k = Inr h \<and> i = h mod bucket_count s)"
  by (auto simp: ll_bucket_def split: if_splits sum.splits)

lemma ll_bucket_cong:
  "bucket_count s' = bucket_count s \<Longrightarrow> m_hasher s' = m_hasher s \<Longrightarrow> ll_bucket k s' = ll_bucket k s"
  by (simp add: ll_bucket_def split: sum.splits)

lemma ll_unique_insert_well_placed:
  assumes "ll_unique_insert k idx s w = (Inr it, s', w')" "ll_bucket k s = Inr idx"
    "well_placed s"
  shows "well_placed s'"
proof -
  from ll_unique_insert_Inr [OF assms(1)] obtain ch pos where i: "idx < bucket_count s"
    and l: "list_insert k (m_container s ! idx) w = (Inr (ch, pos), w')"
    and s': "s' = s\<lparr>m_container := (m_container s)[idx := ch]\<rparr>"
    by blast
  note f = ll_unique_insert_frame [OF assms(1)]
  have b: "ll_bucket x s' = ll_bucket x s" for x
    by (rule ll_bucket_cong) (simp_all add: f)
  show ?thesis
    unfolding well_placed_def
  proof (intro allI impI ballI)
    fix j x assume j: "j < bucket_count s'" and x: "x \<in> set (m_container s' ! j)"
    show "ll_bucket x s' = Inr j"
    proof (cases "j = idx")
      case True
      with x i have "x = k \<or> x \<in> set (m_container s ! idx)"
        by (simp add: s' bucket_count_def list_insert_Inr(2) [OF l])
      then show ?thesis using assms(2,3) i True
        by (auto simp: b well_placed_def)
    next
      case False
      with x have "x \<in> set (m_container s ! j)" by (simp add: s')
      then show ?thesis using assms(3) j f(1) by (simp add: b well_placed_def)
    qed
  qed
qed

lemma rehash_loop_Inr:
  assumes "rehash_loop xs t w = (Inr u, t', w')"
  shows "bucket_count t' = bucket_count t \<and> m_hasher t' = m_hasher t \<and>
         m_key_equal t' = m_key_equal t \<and> m_n_elements t' = m_n_elements t \<and>
         mset (elements t') = mset xs + mset (elements t) \<and>
         (well_placed t \<longrightarrow> well_placed t')"
  using assms
proof (induction xs arbitrary: t w)
  case Nil
  then show ?case by simp
next
  case (Cons x xs)
  from Cons.prems obtain idx it t1 w1 where
    b: "ll_bucket x t = Inr idx" and u: "ll_unique_insert x idx t w = (Inr it, t1, w1)"
    and l: "rehash_loop xs t1 w1 = (Inr u, t', w')"
    by (auto split: sum.splits prod.splits)
  note ih = Cons.IH [OF l]
  note f = ll_unique_insert_frame [OF u]
  from ih f ll_unique_insert_elements [OF u] ll_unique_insert_well_placed [OF u b]
  show ?case by auto
qed

lemma rehash_loop_frame:
  "rehash_loop xs t w = (r, t', w') \<Longrightarrow>
   bucket_count t' = bucket_count t \<and> m_hasher t' = m_hasher t \<and>
   m_key_equal t' = m_key_equal t \<and> m_n_elements t' = m_n_elements t"
proof (induction xs arbitrary: t w)
  case Nil
  then show ?case by simp
next
  case (Cons x xs)
  show ?case
  proof (cases "ll_bucket x t")
    case (Inl e)
    with Cons.prems show ?thesis by simp
  next
    case (Inr idx)
    obtain q t1 w1 where u: "ll_unique_insert x idx t w = (q, t1, w1)"
      by (cases "ll_unique_insert x idx t w") auto
    note f = ll_unique_insert_frame [OF u]
    show ?thesis
    proof (cases q)
      case (Inl e)
      with u Inr Cons.prems have "t' = t1" by simp
      with f show ?thesis by simp
    next
      case it: (Inr it)
      with u Inr Cons.prems have "rehash_loop xs t1 w1 = (r, t', w')" by simp
      from Cons.IH [OF this] f show ?thesis by simp
    qed
  qed
qed

lemma rehash_loop_clear: "rehash_loop xs t w = (r, t', w') \<Longrightarrow> clear t' = clear t"
proof -
  assume "rehash_loop xs t w = (r, t', w')"
  from rehash_loop_frame [OF this]
  have "m_hasher t' = m_hasher t" "m_key_equal t' = m_key_equal t" by simp_all
  then show ?thesis by (cases t; cases t') (simp add: clear_def)
qed

text \<open>
  The half-built table holds a part of the keys only: when the loop stops at a failure,
  the keys moved so far are a proper prefix of the old table's keys.
\<close>

lemma rehash_loop_partial:
  assumes "rehash_loop xs t w = (Inl e, t', w')"
  shows "\<exists>done rest. xs = done @ rest \<and> rest \<noteq> [] \<and>
           mset (elements t') = mset done + mset (elements t)"
  using assms
proof (induction xs arbitrary: t w)
  case Nil
  then show ?case by simp
next
  case (Cons x xs)
  show ?case
  proof (cases "ll_bucket x t")
    case (Inl e')
    with Cons.prems have "t' = t" by simp
    then show ?thesis by (intro exI [of _ "[]"] exI [of _ "x # xs"]) simp
  next
    case (Inr idx)
    obtain q t1 w1 where u: "ll_unique_insert x idx t w = (q, t1, w1)"
      by (cases "ll_unique_insert x idx t w") auto
    show ?thesis
    proof (cases q)
      case (Inl e')
      with u Inr Cons.prems have "t' = t1" by simp
      moreover have "t1 = t" by (rule ll_unique_insert_Inl(1) [OF u [unfolded Inl]])
      ultimately show ?thesis by (intro exI [of _ "[]"] exI [of _ "x # xs"]) simp
    next
      case it: (Inr it)
      with u Inr Cons.prems have "rehash_loop xs t1 w1 = (Inl e, t', w')" by simp
      from Cons.IH [OF this] obtain d rest where
        "xs = d @ rest" "rest \<noteq> []" "mset (elements t') = mset d + mset (elements t1)"
        by blast
      moreover have "mset (elements t1) = add_mset x (mset (elements t))"
        by (rule ll_unique_insert_elements [OF u [unfolded it]])
      ultimately show ?thesis
        by (intro exI [of _ "x # d"] exI [of _ rest]) simp
    qed
  qed
qed

subsection \<open>Evaluation on concrete tables\<close>

lemma replicate_numeral: "replicate (numeral v) x = x # replicate (numeral v - 1) x"
  by (simp add: numeral_eq_Suc)

lemma list_update_Cons_numeral: "(x # xs)[numeral v := y] = x # xs[numeral v - 1 := y]"
  by (simp add: numeral_eq_Suc)

lemmas hs_eval = hs_insert_def bucket_count_def ll_increase_size_def get_size_index_def
  table_sizes_def n_available_sizes_def rehash_def rehash_body_def hash_set_n_buckets_def
  get_size_from_hint_def elements_def ll_bucket_def ll_find_def hs_end_def size_type_max_def
  get_max_load_factor_def ll_unique_insert_def clear_def hash_set_default_def hs_size_def
  Let_def replicate_numeral list_update_Cons_numeral

subsection \<open>Rehash\<close>

lemma hash_set_n_buckets_Inr:
  assumes "hash_set_n_buckets n h k w = (Inr t, w')"
  shows "get_size_from_hint n = Inr (bucket_count t)" "m_hasher t = h" "m_key_equal t = k"
    "m_n_elements t = 0" "elements t = []" "well_placed t"
    "m_container t = replicate (bucket_count t) []"
    "fallible_step w = (Inr (), w')"
  using assms
  by (auto simp: hash_set_n_buckets_def bucket_count_def elements_def well_placed_def
      split: sum.splits prod.splits)

lemma hash_set_n_buckets_Inl:
  assumes "hash_set_n_buckets n h k w = (Inl e, w')"
  shows "(get_size_from_hint n = Inl Bad_alloc \<and> e = Bad_alloc \<and> w' = w) \<or>
         ((\<exists>m. get_size_from_hint n = Inr m) \<and> fallible_step w = (Inl e, w'))"
  using assms
  by (auto simp: hash_set_n_buckets_def get_size_from_hint_def Let_def
      split: sum.splits prod.splits if_splits)

lemma hash_set_n_buckets_fault_free:
  assumes "get_size_from_hint n = Inr m" "fault_free w"
  shows "\<exists>w'. hash_set_n_buckets n h k w =
           (Inr \<lparr>m_container = replicate m [], m_hasher = h, m_key_equal = k,
                 m_n_elements = 0\<rparr>, w') \<and> fault_free w'"
  using assms fallible_step_fault_free [OF assms(2)]
  by (auto simp: hash_set_n_buckets_def)

lemma well_placed_n_elements [simp]:
  "well_placed (s\<lparr>m_n_elements := n\<rparr>) = well_placed s"
proof -
  have "ll_bucket x (s\<lparr>m_n_elements := n\<rparr>) = ll_bucket x s" for x
    by (rule ll_bucket_cong) (simp_all add: bucket_count_def)
  then show ?thesis by (simp add: well_placed_def bucket_count_def)
qed

lemma rehash_body_Inr:
  assumes "rehash_body new_size s w = (Inr u, s', t, w')"
  shows "\<exists>new_table filled w1.
           hash_set_n_buckets new_size (m_hasher s) (m_key_equal s) w = (Inr new_table, w1) \<and>
           rehash_loop (elements s) new_table w1 = (Inr (), filled, w') \<and>
           s' = filled\<lparr>m_n_elements := m_n_elements s\<rparr> \<and> t = Some (clear s')"
  using assms
  by (auto simp: rehash_body_def Let_def split: sum.splits if_splits prod.splits)

lemma rehash_Inr:
  assumes "rehash new_size s w = (Inr u, s', w')"
  shows "get_size_from_hint new_size = Inr (bucket_count s')"
    and "mset (elements s') = mset (elements s)"
    and "m_hasher s' = m_hasher s" and "m_key_equal s' = m_key_equal s"
    and "m_n_elements s' = m_n_elements s"
    and "well_placed s'"
proof -
  from assms obtain t where "rehash_body new_size s w = (Inr u, s', t, w')"
    by (auto simp: rehash_def split: prod.splits)
  from rehash_body_Inr [OF this] obtain new_table filled w1 where
    n: "hash_set_n_buckets new_size (m_hasher s) (m_key_equal s) w = (Inr new_table, w1)"
    and l: "rehash_loop (elements s) new_table w1 = (Inr (), filled, w')"
    and s': "s' = filled\<lparr>m_n_elements := m_n_elements s\<rparr>"
    by blast
  note hn = hash_set_n_buckets_Inr [OF n]
  note rl = rehash_loop_Inr [OF l]
  have bc: "bucket_count s' = bucket_count new_table"
    using rl by (simp add: s' bucket_count_def)
  show "get_size_from_hint new_size = Inr (bucket_count s')"
    using hn(1) bc by simp
  show "mset (elements s') = mset (elements s)"
    using rl hn(5) by (simp add: s' elements_def)
  show "m_hasher s' = m_hasher s" using rl hn(2) by (simp add: s')
  show "m_key_equal s' = m_key_equal s" using rl hn(3) by (simp add: s')
  show "m_n_elements s' = m_n_elements s" by (simp add: s')
  have "well_placed filled" using rl hn(6) by simp
  then show "well_placed s'" by (simp add: s')
qed

lemma rehash_loop_total:
  assumes "\<forall>x \<in> set xs. \<exists>h. m_hasher t x = Inr h" "bucket_count t \<noteq> 0" "fault_free w"
  shows "\<exists>t' w'. rehash_loop xs t w = (Inr (), t', w') \<and> fault_free w'"
  using assms
proof (induction xs arbitrary: t w)
  case Nil
  then show ?case by simp
next
  case (Cons x xs)
  from Cons.prems obtain h where h: "m_hasher t x = Inr h" by auto
  let ?i = "h mod bucket_count t"
  have b: "ll_bucket x t = Inr ?i" using h Cons.prems(2) by (simp add: ll_bucket_def)
  have i: "?i < bucket_count t" using Cons.prems(2) by simp
  from ll_unique_insert_fault_free [OF i Cons.prems(3), of x]
  obtain it t1 w1 where u: "ll_unique_insert x ?i t w = (Inr it, t1, w1)"
    and ff: "fault_free w1" by blast
  note f = ll_unique_insert_frame [OF u]
  have "\<exists>t' w'. rehash_loop xs t1 w1 = (Inr (), t', w') \<and> fault_free w'"
    using Cons.prems(1,2) f ff by (intro Cons.IH) auto
  then show ?case using b u by simp
qed

lemma get_size_from_hint_defined:
  assumes "new_size \<le> 824633720831"
  shows "\<exists>n. get_size_from_hint new_size = Inr n"
proof -
  have "lower_bound table_sizes new_size \<noteq> length table_sizes"
    using assms lower_bound_before [of 40 table_sizes new_size]
    by (auto simp: table_sizes_def)
  then show ?thesis by (simp add: get_size_from_hint_def Let_def)
qed

lemma get_size_from_hint_beyond:
  assumes "824633720831 < new_size"
  shows "get_size_from_hint new_size = Inl Bad_alloc"
proof -
  from assms have "lower_bound table_sizes new_size = length table_sizes"
    by (simp add: table_sizes_def)
  then show ?thesis by (simp add: get_size_from_hint_def)
qed

lemma rehash_returns:
  assumes "\<forall>x \<in> set (elements s). \<exists>h. m_hasher s x = Inr h"
    and "new_size \<le> 824633720831"
    and "new_size = 0 \<longrightarrow> elements s = []"
    and "fault_free w"
  shows "\<exists>s' w'. rehash new_size s w = (Inr (), s', w') \<and> fault_free w'"
proof -
  from get_size_from_hint_defined [OF assms(2)] obtain n where
    n: "get_size_from_hint new_size = Inr n" ..
  define new_table where "new_table = \<lparr>m_container = replicate n ([] :: 'a list),
    m_hasher = m_hasher s, m_key_equal = m_key_equal s, m_n_elements = 0\<rparr>"
  from hash_set_n_buckets_fault_free [OF n assms(4)] obtain w1 where
    nt: "hash_set_n_buckets new_size (m_hasher s) (m_key_equal s) w = (Inr new_table, w1)"
    and ff: "fault_free w1"
    unfolding new_table_def by blast
  have "\<exists>t' w'. rehash_loop (elements s) new_table w1 = (Inr (), t', w') \<and> fault_free w'"
  proof (cases "elements s = []")
    case True
    then show ?thesis using ff by simp
  next
    case False
    with assms(3) have "0 < new_size" by simp
    with get_size_from_hint_Inr [OF n] have "n \<noteq> 0" by auto
    then have "bucket_count new_table \<noteq> 0" by (simp add: new_table_def bucket_count_def)
    moreover have "\<forall>x \<in> set (elements s). \<exists>h. m_hasher new_table x = Inr h"
      using assms(1) by (simp add: new_table_def)
    ultimately show ?thesis using ff by (intro rehash_loop_total)
  qed
  then obtain t' w' where "rehash_loop (elements s) new_table w1 = (Inr (), t', w')"
    "fault_free w'" by blast
  then show ?thesis by (simp add: rehash_def rehash_body_def nt Let_def)
qed

text \<open>
  Claim C3, as stated for every table and every \<open>new_size\<close>, fails where \<open>rehash\<close>
  does not return: a \<open>new_size\<close> above the largest size class makes
  \<open>get_size_from_hint\<close> throw \<open>bad_alloc\<close>, and the table keeps the bucket count it
  had, which is no size class above \<open>new_size\<close>.
\<close>

theorem rehash_every_size_counterexample:
  "fst (rehash 824633720832 (hash_set_default Inr ((=) :: nat \<Rightarrow> nat \<Rightarrow> bool)) [])
     = Inl Bad_alloc \<and>
   \<not> 824633720832 \<le>
     bucket_count
       (fst (snd (rehash 824633720832 (hash_set_default Inr ((=) :: nat \<Rightarrow> nat \<Rightarrow> bool)) [])))"
  by (simp add: rehash_def rehash_body_def hash_set_n_buckets_def get_size_from_hint_def
      table_sizes_def hash_set_default_def bucket_count_def)

text \<open>
  Claim C3, amended. Whenever \<open>rehash(new_size)\<close> returns normally, a full iteration (it
  visits \<open>elements\<close>, by lemma \<open>iterate_elements\<close>) reaches exactly the keys it reached
  before the call (as a set, and even with the same multiplicities), and
  \<open>bucket_count()\<close> is the smallest size class that is at least \<open>new_size\<close>: it is a
  size class, it is not below \<open>new_size\<close>, and no size class from \<open>new_size\<close> on is
  smaller. For a \<open>new_size\<close> above the largest size class \<open>rehash\<close> throws \<open>bad_alloc\<close>
  and the table stays as it was.

  The first part is not empty: the call does return normally when \<open>new_size\<close> is at
  most the largest size class, no allocation and no constructor fails, the hasher
  succeeds on every stored key, and \<open>new_size\<close> is nonzero or the table holds no key.
\<close>

theorem rehash_preserves_membership:
  "(rehash new_size s w = (Inr u, s', w') \<longrightarrow>
      set (elements s') = set (elements s) \<and>
      mset (elements s') = mset (elements s) \<and>
      bucket_count s' \<in> set table_sizes \<and>
      new_size \<le> bucket_count s' \<and>
      (\<forall>c \<in> set table_sizes. new_size \<le> c \<longrightarrow> bucket_count s' \<le> c)) \<and>
   (824633720831 < new_size \<longrightarrow> rehash new_size s w = (Inl Bad_alloc, s, w)) \<and>
   ((\<forall>x \<in> set (elements s). \<exists>h. m_hasher s x = Inr h) \<and> fault_free w \<and>
    new_size \<le> 824633720831 \<and> (new_size = 0 \<longrightarrow> elements s = []) \<longrightarrow>
      (\<exists>s' w'. rehash new_size s w = (Inr (), s', w')))"
proof (intro conjI impI)
  assume r: "rehash new_size s w = (Inr u, s', w')"
  note p = rehash_Inr [OF r]
  from p(2) show "set (elements s') = set (elements s)" by (rule mset_eq_setD)
  from p(2) show "mset (elements s') = mset (elements s)" .
  from get_size_from_hint_Inr [OF p(1)]
  show "bucket_count s' \<in> set table_sizes" "new_size \<le> bucket_count s'"
    "\<forall>c \<in> set table_sizes. new_size \<le> c \<longrightarrow> bucket_count s' \<le> c"
    by simp_all
next
  assume "(\<forall>x \<in> set (elements s). \<exists>h. m_hasher s x = Inr h) \<and> fault_free w \<and>
    new_size \<le> 824633720831 \<and> (new_size = 0 \<longrightarrow> elements s = [])"
  then have "\<exists>s' w'. rehash new_size s w = (Inr (), s', w') \<and> fault_free w'"
    by (intro rehash_returns) simp_all
  then show "\<exists>s' w'. rehash new_size s w = (Inr (), s', w')" by blast
next
  assume "824633720831 < new_size"
  from get_size_from_hint_beyond [OF this]
  show "rehash new_size s w = (Inl Bad_alloc, s, w)"
    by (simp add: rehash_def rehash_body_def hash_set_n_buckets_def)
qed

theorem rehash_preserves_membership_witness:
  "\<exists>s' w'. rehash 4 \<lparr>m_container = [[3], [1], [5::nat]], m_hasher = Inr, m_key_equal = (=),
            m_n_elements = 3\<rparr> [None, None] = (Inr (), s', w') \<and>
        set (elements s') = {1, 3, 5} \<and> bucket_count s' = 5"
proof -
  let ?s = "\<lparr>m_container = [[3], [1], [5::nat]], m_hasher = Inr, m_key_equal = (=),
            m_n_elements = 3\<rparr>"
  let ?w = "[None, None] :: faults"
  have h: "(\<forall>x \<in> set (elements ?s). \<exists>h. m_hasher ?s x = Inr h) \<and> fault_free ?w \<and>
    (4::nat) \<le> 824633720831 \<and> ((4::nat) = 0 \<longrightarrow> elements ?s = [])"
    by (simp add: fault_free_def)
  note t = rehash_preserves_membership [of 4 ?s ?w]
  from t [THEN conjunct2, THEN conjunct2, THEN mp, OF h]
  obtain s' w' where r: "rehash 4 ?s ?w = (Inr (), s', w')" by blast
  from rehash_preserves_membership [of 4 ?s ?w "()" s' w', THEN conjunct1, THEN mp, OF r]
  have p: "set (elements s') = set (elements ?s)" "bucket_count s' \<in> set table_sizes"
    "4 \<le> bucket_count s'" "\<forall>c \<in> set table_sizes. 4 \<le> c \<longrightarrow> bucket_count s' \<le> c"
    by simp_all
  have "5 \<in> set table_sizes" by (simp add: table_sizes_def)
  with p(4) have "bucket_count s' \<le> 5" by auto
  moreover from p(2,3) have "bucket_count s' \<noteq> 4" by (auto simp: table_sizes_def)
  ultimately have "bucket_count s' = 5" using p(3) by simp
  moreover from p(1) have "set (elements s') = {1, 3, 5}" by (auto simp: elements_def)
  ultimately show ?thesis using r by blast
qed

subsection \<open>Growth\<close>

lemma equal_range_one:
  "upper_bound xs v - lower_bound xs v = 1 \<Longrightarrow>
   lower_bound xs v < length xs \<and> xs ! lower_bound xs v = v"
  by (induction xs) (auto split: if_splits)

lemma upper_bound_0: "\<forall>y \<in> set xs. v < y \<Longrightarrow> upper_bound xs v = 0"
  by (cases xs) auto

lemma lower_bound_0: "\<forall>y \<in> set xs. v < y \<Longrightarrow> lower_bound xs v = 0"
  by (cases xs) auto

lemma equal_range_member:
  "sorted_wrt (<) xs \<Longrightarrow> v \<in> set xs \<Longrightarrow> upper_bound xs v = Suc (lower_bound xs v)"
proof (induction xs)
  case Nil
  then show ?case by simp
next
  case (Cons x xs)
  show ?case
  proof (cases "v = x")
    case True
    with Cons.prems have "upper_bound xs v = 0" by (intro upper_bound_0) auto
    with True show ?thesis by simp
  next
    case False
    with Cons.prems have xv: "x < v" and mem: "v \<in> set xs" by auto
    from Cons.prems have "sorted_wrt (<) xs" by simp
    from Cons.IH [OF this mem] xv show ?thesis by simp
  qed
qed

lemma lower_bound_nth:
  "sorted_wrt (<) xs \<Longrightarrow> j < length xs \<Longrightarrow> lower_bound xs (xs ! j) = j"
proof (induction xs arbitrary: j)
  case Nil
  then show ?case by simp
next
  case (Cons x xs)
  show ?case
  proof (cases j)
    case 0
    then show ?thesis by simp
  next
    case (Suc m)
    with Cons.prems have m: "m < length xs" and srt: "sorted_wrt (<) xs" by simp_all
    from Cons.prems m have "\<not> xs ! m \<le> x" by (auto simp: not_le)
    with Cons.IH [OF srt m] Suc show ?thesis by simp
  qed
qed

lemma get_size_index_Inr:
  assumes "get_size_index s = Inr i"
  shows "i < n_available_sizes" "table_sizes ! i = bucket_count s"
  using assms equal_range_one [of table_sizes "bucket_count s"]
  by (auto simp: get_size_index_def Let_def table_sizes_length split: if_splits)

lemma get_size_index_Inl: "get_size_index s = Inl e \<Longrightarrow> e = Assertion_failure"
  by (auto simp: get_size_index_def Let_def split: if_splits)

lemma get_size_index_member:
  assumes "bucket_count s \<in> set table_sizes"
  shows "\<exists>i. get_size_index s = Inr i"
  using equal_range_member [OF strict_sorted_table_sizes assms]
  by (simp add: get_size_index_def Let_def)

lemma get_size_from_hint_nth:
  assumes "j < n_available_sizes"
  shows "get_size_from_hint (table_sizes ! j) = Inr (table_sizes ! j)"
  using assms lower_bound_nth [OF strict_sorted_table_sizes, of j]
  by (simp add: get_size_from_hint_def Let_def table_sizes_length)

lemma table_sizes_mono:
  "i < j \<Longrightarrow> j < n_available_sizes \<Longrightarrow> table_sizes ! i < table_sizes ! j"
  using strict_sorted_table_sizes
  by (simp add: sorted_wrt_iff_nth_less table_sizes_length)

lemma table_sizes_last: "table_sizes ! (n_available_sizes - 1) = 824633720831"
  by (simp add: table_sizes_def n_available_sizes_def)

lemma table_sizes_le_last:
  assumes "j < n_available_sizes"
  shows "table_sizes ! j \<le> 824633720831"
proof (cases "j = n_available_sizes - 1")
  case True
  show ?thesis unfolding True table_sizes_last by simp
next
  case False
  with assms have "j < n_available_sizes - 1" by simp
  moreover have "n_available_sizes - 1 < n_available_sizes" by (simp add: n_available_sizes_def)
  ultimately have "table_sizes ! j < table_sizes ! (n_available_sizes - 1)"
    by (rule table_sizes_mono)
  then show ?thesis unfolding table_sizes_last by simp
qed

lemma ll_increase_size_Inr:
  assumes "ll_increase_size s w = (Inr u, s', w')"
  shows "\<exists>i. get_size_index s = Inr i \<and> Suc i < n_available_sizes \<and>
             rehash (table_sizes ! Suc i) s w = (Inr u, s', w') \<and>
             bucket_count s' = table_sizes ! Suc i \<and> bucket_count s < bucket_count s'"
proof -
  from assms obtain i where i: "get_size_index s = Inr i"
    and ne: "i \<noteq> n_available_sizes - 1"
    and r: "rehash (table_sizes ! Suc i) s w = (Inr u, s', w')"
    by (auto simp: ll_increase_size_def split: sum.splits if_splits)
  note gi = get_size_index_Inr [OF i]
  from gi(1) ne have lt: "Suc i < n_available_sizes" by simp
  from rehash_Inr(1) [OF r] get_size_from_hint_nth [OF lt]
  have bc: "bucket_count s' = table_sizes ! Suc i" by simp
  have "table_sizes ! i < table_sizes ! Suc i" using lt by (intro table_sizes_mono) simp_all
  with i lt r bc gi(2) show ?thesis by simp
qed

text \<open>
  Growing a table without buckets: \<open>rehash(1)\<close> builds an array of one bucket, finds
  nothing to move, and the table takes the array. Only the allocation can fail.
\<close>

lemma ll_increase_size_zero:
  assumes "bucket_count s = 0"
  shows "ll_increase_size s w =
    (case fallible_step w of
       (Inl e, w1) \<Rightarrow> (Inl e, s, w1)
     | (Inr u, w1) \<Rightarrow> (Inr (), s\<lparr>m_container := [[]]\<rparr>, w1))"
proof -
  have e: "elements s = []" using assms by (simp add: elements_def bucket_count_def)
  have i: "get_size_index s = Inr 0"
    using assms by (simp add: get_size_index_def table_sizes_def)
  have t: "table_sizes ! Suc 0 = 1" by (simp add: table_sizes_def)
  have h: "get_size_from_hint (Suc 0) = Inr (Suc 0)"
    by (simp add: get_size_from_hint_def table_sizes_def)
  have r: "\<lparr>m_container = [[]], m_hasher = m_hasher s, m_key_equal = m_key_equal s,
      m_n_elements = m_n_elements s\<rparr> = s\<lparr>m_container := [[]]\<rparr>"
    by simp
  obtain q w1 where f: "fallible_step w = (q, w1)" by (cases "fallible_step w")
  show ?thesis
  proof (cases q)
    case (Inl e')
    with f show ?thesis
      by (simp add: ll_increase_size_def i n_available_sizes_def t rehash_def rehash_body_def
          hash_set_n_buckets_def h)
  next
    case (Inr u)
    with f have "ll_increase_size s w =
      (Inr (), \<lparr>m_container = [[]], m_hasher = m_hasher s, m_key_equal = m_key_equal s,
                m_n_elements = m_n_elements s\<rparr>, w1)"
      by (simp add: ll_increase_size_def i n_available_sizes_def t rehash_def rehash_body_def
          hash_set_n_buckets_def h e Let_def)
    with f Inr r show ?thesis by simp
  qed
qed

text \<open>
  How \<open>rehash\<close> fails. Before the loop, the size class or the new bucket array cannot
  be had, and the table is as it was. In the loop, the exception is caught, and the
  table and the half-built table are cleared.
\<close>

lemma rehash_body_Inl:
  assumes "rehash_body new_size s w = (Inl e, s', t, w')" "e \<noteq> Assertion_failure"
  shows "(hash_set_n_buckets new_size (m_hasher s) (m_key_equal s) w = (Inl e, w') \<and>
          s' = s \<and> t = None) \<or>
         (\<exists>new_table w1 half_built.
            hash_set_n_buckets new_size (m_hasher s) (m_key_equal s) w = (Inr new_table, w1) \<and>
            rehash_loop (elements s) new_table w1 = (Inl e, half_built, w') \<and>
            s' = clear s \<and> t = Some (clear half_built))"
  using assms
  by (auto simp: rehash_body_def Let_def split: sum.splits if_splits prod.splits)

lemma rehash_Inl:
  assumes "rehash new_size s w = (Inl e, s', w')" "e \<noteq> Assertion_failure"
  shows "(hash_set_n_buckets new_size (m_hasher s) (m_key_equal s) w = (Inl e, w') \<and> s' = s) \<or>
         (\<exists>new_table w1 half_built.
            hash_set_n_buckets new_size (m_hasher s) (m_key_equal s) w = (Inr new_table, w1) \<and>
            rehash_loop (elements s) new_table w1 = (Inl e, half_built, w') \<and>
            s' = clear s)"
proof -
  from assms(1) obtain t where "rehash_body new_size s w = (Inl e, s', t, w')"
    by (auto simp: rehash_def split: prod.splits)
  from rehash_body_Inl [OF this assms(2)] show ?thesis by blast
qed

lemma ll_increase_size_Inl:
  assumes "ll_increase_size s w = (Inl e, s', w')" "e \<noteq> Assertion_failure"
  shows "s' = s \<or>
         (\<exists>i new_table w1 half_built.
            get_size_index s = Inr i \<and> Suc i < n_available_sizes \<and>
            hash_set_n_buckets (table_sizes ! Suc i) (m_hasher s) (m_key_equal s) w
              = (Inr new_table, w1) \<and>
            rehash_loop (elements s) new_table w1 = (Inl e, half_built, w') \<and>
            s' = clear s)"
proof -
  have "get_size_index s \<noteq> Inl e"
    using assms(2) get_size_index_Inl by blast
  with assms obtain i where i: "get_size_index s = Inr i"
    by (auto simp: ll_increase_size_def split: sum.splits)
  show ?thesis
  proof (cases "i = n_available_sizes - 1")
    case True
    with assms i show ?thesis by (auto simp: ll_increase_size_def)
  next
    case False
    with assms i have r: "rehash (table_sizes ! Suc i) s w = (Inl e, s', w')"
      by (simp add: ll_increase_size_def)
    from get_size_index_Inr(1) [OF i] False have "Suc i < n_available_sizes" by simp
    with rehash_Inl [OF r assms(2)] i show ?thesis by blast
  qed
qed

lemma ll_increase_size_returns:
  assumes "bucket_count s \<in> set table_sizes" "bucket_count s < 824633720831"
    and "\<forall>x \<in> set (elements s). \<exists>h. m_hasher s x = Inr h" and "fault_free w"
  shows "\<exists>s' w'. ll_increase_size s w = (Inr (), s', w') \<and> fault_free w'"
proof -
  from get_size_index_member [OF assms(1)] obtain i where i: "get_size_index s = Inr i" ..
  note gi = get_size_index_Inr [OF i]
  have ne: "i \<noteq> n_available_sizes - 1"
    using gi(2) assms(2) table_sizes_last by auto
  with gi(1) have lt: "Suc i < n_available_sizes" by simp
  from table_sizes_mono [of i "Suc i"] lt have "table_sizes ! Suc i \<noteq> 0" by simp
  with rehash_returns [OF assms(3) table_sizes_le_last [OF lt] _ assms(4)]
  obtain s' w' where "rehash (table_sizes ! Suc i) s w = (Inr (), s', w')" "fault_free w'"
    by auto
  with i ne show ?thesis by (simp add: ll_increase_size_def)
qed

subsection \<open>Insertion\<close>

lemma find_in_bucket_None:
  "find_in_bucket eq k xs pos = None \<longleftrightarrow> (\<forall>x \<in> set xs. \<not> eq x k)"
  by (induction xs arbitrary: pos) auto

lemma find_in_bucket_Some:
  "find_in_bucket eq k xs pos = Some q \<Longrightarrow>
   pos \<le> q \<and> q - pos < length xs \<and> eq (xs ! (q - pos)) k \<and> (\<forall>j < q - pos. \<not> eq (xs ! j) k)"
proof (induction xs arbitrary: pos)
  case Nil
  then show ?case by simp
next
  case (Cons x xs)
  show ?case
  proof (cases "eq x k")
    case True
    with Cons.prems show ?thesis by simp
  next
    case False
    with Cons.prems have "find_in_bucket eq k xs (Suc pos) = Some q" by simp
    from Cons.IH [OF this] have q: "Suc pos \<le> q" "q - Suc pos < length xs"
      "eq (xs ! (q - Suc pos)) k" "\<forall>j < q - Suc pos. \<not> eq (xs ! j) k" by simp_all
    from q(1) have e: "q - pos = Suc (q - Suc pos)" by simp
    have "\<forall>j < q - pos. \<not> eq ((x # xs) ! j) k"
    proof (intro allI impI)
      fix j assume "j < q - pos"
      then show "\<not> eq ((x # xs) ! j) k"
        using False q(4) e by (cases j) auto
    qed
    with q e show ?thesis by simp
  qed
qed

lemma elements_bucket:
  "x \<in> set (elements s) \<longleftrightarrow> (\<exists>i < bucket_count s. x \<in> set (m_container s ! i))"
proof -
  have "x \<in> set (elements s) \<longleftrightarrow> (\<exists>b \<in> set (m_container s). x \<in> set b)"
    by (auto simp: elements_def)
  also have "\<dots> \<longleftrightarrow> (\<exists>i < length (m_container s). x \<in> set (m_container s ! i))"
    by (metis in_set_conv_nth)
  finally show ?thesis by (simp add: bucket_count_def)
qed

lemma load_factor_check:
  "0 < b \<Longrightarrow> (get_max_load_factor < real (n + 1) / real b) = (b < n + 1)"
proof -
  assume b: "0 < b"
  then have "(get_max_load_factor < real (n + 1) / real b) = (real b < real (n + 1))"
    unfolding get_max_load_factor_def by (subst less_divide_eq_1_pos) simp_all
  also have "\<dots> = (b < n + 1)" by (rule of_nat_less_iff)
  finally show ?thesis .
qed

lemma hs_insert_present:
  assumes "ll_bucket k s = Inr b"
    and "find_in_bucket (m_key_equal s) k (m_container s ! b) 0 = Some pos"
  shows "hs_insert k s w = (Inr (\<lparr>m_idx = b, m_it = Some pos\<rparr>, False), s, w)"
proof -
  from ll_bucket_Inr [OF assms(1)] have b: "b < bucket_count s" by simp
  then have f: "ll_find k b s = Inr \<lparr>m_idx = b, m_it = Some pos\<rparr>"
    using assms(2) by (simp add: ll_find_def)
  have "\<lparr>m_idx = b, m_it = Some pos\<rparr> \<noteq> hs_end s" by (simp add: hs_end_def)
  with b f assms(1) show ?thesis by (simp add: hs_insert_def)
qed

text \<open>
  \<open>insert\<close> on a table without buckets: the growth to one bucket comes first, and when
  its allocation fails the table is as it was.
\<close>

lemma hs_insert_zero:
  assumes "bucket_count s = 0"
  shows "hs_insert k s w =
    (case fallible_step w of
       (Inl e, w1) \<Rightarrow> (Inl e, s, w1)
     | (Inr u, w1) \<Rightarrow> hs_insert k (s\<lparr>m_container := [[]]\<rparr>) w1)"
proof -
  have nz: "bucket_count (s\<lparr>m_container := [[]]\<rparr>) \<noteq> 0" by (simp add: bucket_count_def)
  obtain q w1 where f: "fallible_step w = (q, w1)" by (cases "fallible_step w")
  show ?thesis
  proof (cases q)
    case (Inl e)
    with f assms show ?thesis by (simp add: hs_insert_def ll_increase_size_zero)
  next
    case (Inr u)
    with f assms nz show ?thesis by (simp add: hs_insert_def ll_increase_size_zero)
  qed
qed

text \<open>
  \<open>insert\<close> of a key that \<open>_find\<close> does not find, written out for the two outcomes of
  the load-factor test.
\<close>

lemma hs_insert_no_growth:
  assumes "bucket_count s \<noteq> 0" "ll_bucket k s = Inr b"
    and "find_in_bucket (m_key_equal s) k (m_container s ! b) 0 = None"
    and "m_n_elements s \<noteq> size_type_max"
    and "\<not> bucket_count s < m_n_elements s + 1"
  shows "hs_insert k s w =
    (case ll_unique_insert k b s w of
       (Inl e, s3, w3) \<Rightarrow> (Inl e, s3, w3)
     | (Inr it, s3, w3) \<Rightarrow> (Inr (it, True), s3\<lparr>m_n_elements := m_n_elements s3 + 1\<rparr>, w3))"
proof -
  from ll_bucket_Inr [OF assms(2)] have lt: "b < bucket_count s" by simp
  then have f: "ll_find k b s = Inr (hs_end s)" using assms(3) by (simp add: ll_find_def)
  have lf: "(get_max_load_factor < real (m_n_elements s + 1) / real (bucket_count s))
            = (bucket_count s < m_n_elements s + 1)"
    using assms(1) by (intro load_factor_check) simp
  show ?thesis
    using assms f lf by (simp add: hs_insert_def split: sum.splits prod.splits)
qed

lemma hs_insert_growth:
  assumes "bucket_count s \<noteq> 0" "ll_bucket k s = Inr b"
    and "find_in_bucket (m_key_equal s) k (m_container s ! b) 0 = None"
    and "m_n_elements s \<noteq> size_type_max"
    and "bucket_count s < m_n_elements s + 1"
  shows "hs_insert k s w =
    (case ll_increase_size s w of
       (Inl e, s2, w2) \<Rightarrow> (Inl e, s2, w2)
     | (Inr u, s2, w2) \<Rightarrow>
        (case ll_bucket k s2 of
           Inl e \<Rightarrow> (Inl e, s2, w2)
         | Inr idx \<Rightarrow>
            (case ll_unique_insert k idx s2 w2 of
               (Inl e, s3, w3) \<Rightarrow> (Inl e, s3, w3)
             | (Inr it, s3, w3) \<Rightarrow>
                 (Inr (it, True), s3\<lparr>m_n_elements := m_n_elements s3 + 1\<rparr>, w3))))"
proof -
  from ll_bucket_Inr [OF assms(2)] have lt: "b < bucket_count s" by simp
  then have f: "ll_find k b s = Inr (hs_end s)" using assms(3) by (simp add: ll_find_def)
  have lf: "(get_max_load_factor < real (m_n_elements s + 1) / real (bucket_count s))
            = (bucket_count s < m_n_elements s + 1)"
    using assms(1) by (intro load_factor_check) simp
  show ?thesis
    using assms f lf by (simp add: hs_insert_def split: sum.splits prod.splits)
qed

text \<open>
  The last step of \<open>insert\<close>, placing the key into bucket \<open>c\<close> of the table \<open>t\<close> and
  counting it: what the table is afterwards.
\<close>

lemma placed:
  assumes "ll_unique_insert k c t w = (Inr it, s3, w3)"
    and "s' = s3\<lparr>m_n_elements := m_n_elements s3 + 1\<rparr>"
  shows "bucket_count s' = bucket_count t" "m_hasher s' = m_hasher t"
    "m_key_equal s' = m_key_equal t" "m_n_elements s' = m_n_elements t + 1"
    "mset (elements s') = add_mset k (mset (elements t))"
    "m_idx it = c"
    "\<exists>pos. m_it it = Some pos \<and> pos < length (m_container s' ! c) \<and>
           m_container s' ! c ! pos = k"
    "m_container s' = (m_container t)
       [c := (case m_container t ! c of [] \<Rightarrow> [k] | first # rest \<Rightarrow> first # k # rest)]"
    "ll_bucket k t = Inr c \<Longrightarrow> well_placed t \<Longrightarrow> well_placed s'"
proof -
  note f = ll_unique_insert_frame [OF assms(1)]
  show "bucket_count s' = bucket_count t" using f(1) by (simp add: assms(2) bucket_count_def)
  show "m_hasher s' = m_hasher t" using f(2) by (simp add: assms(2))
  show "m_key_equal s' = m_key_equal t" using f(3) by (simp add: assms(2))
  show "m_n_elements s' = m_n_elements t + 1" using f(4) by (simp add: assms(2))
  have "elements s' = elements s3" by (simp add: assms(2) elements_def)
  then show "mset (elements s') = add_mset k (mset (elements t))"
    using ll_unique_insert_elements [OF assms(1)] by simp
  from ll_unique_insert_position [OF assms(1)]
  show "m_idx it = c"
    "\<exists>pos. m_it it = Some pos \<and> pos < length (m_container s' ! c) \<and>
           m_container s' ! c ! pos = k"
    by (simp_all add: assms(2))
  from ll_unique_insert_Inr(2) [OF assms(1)] obtain ch pos where
    l: "list_insert k (m_container t ! c) w = (Inr (ch, pos), w3)"
    and s3: "s3 = t\<lparr>m_container := (m_container t)[c := ch]\<rparr>" by blast
  from list_insert_Inr(5) [OF l] s3
  show "m_container s' = (m_container t)
       [c := (case m_container t ! c of [] \<Rightarrow> [k] | first # rest \<Rightarrow> first # k # rest)]"
    by (simp add: assms(2))
  assume "ll_bucket k t = Inr c" "well_placed t"
  from ll_unique_insert_well_placed [OF assms(1) this]
  show "well_placed s'" by (simp add: assms(2))
qed

lemma ll_find_not_exn: "ll_find k idx s = Inl e \<Longrightarrow> e = Assertion_failure"
  by (auto simp: ll_find_def split: if_splits option.splits)

text \<open>
  How \<open>insert\<close> fails on a table with buckets. The hasher throws on the key, the count
  is at its maximum, the growth fails before its loop, or the key cannot be placed
  without a growth: the table is as it was. The loop of the growth fails: the table is
  cleared. The growth succeeds and the key cannot be placed then: the table stays
  rehashed, with the keys it had.
\<close>

lemma hs_insert_Inl:
  assumes "hs_insert k s w = (Inl e, s', w')" "e \<noteq> Assertion_failure" "bucket_count s \<noteq> 0"
  shows "s' = s \<or> s' = clear s \<or>
         (bucket_count s < m_n_elements s + 1 \<and>
          (\<exists>w1. ll_increase_size s w = (Inr (), s', w1)))"
proof (cases "ll_bucket k s")
  case (Inl e')
  with assms show ?thesis by (simp add: hs_insert_def)
next
  case (Inr b)
  from ll_bucket_Inr [OF Inr] obtain h where lt: "b < bucket_count s"
    and h: "m_hasher s k = Inr h" by blast
  show ?thesis
  proof (cases "find_in_bucket (m_key_equal s) k (m_container s ! b) 0")
    case (Some pos)
    from hs_insert_present [OF Inr Some, of w] assms(1) show ?thesis by simp
  next
    case None
    then have f: "ll_find k b s = Inr (hs_end s)" using lt by (simp add: ll_find_def)
    show ?thesis
    proof (cases "m_n_elements s = size_type_max")
      case True
      with assms Inr f show ?thesis by (simp add: hs_insert_def)
    next
      case nm: False
      show ?thesis
      proof (cases "bucket_count s < m_n_elements s + 1")
        case False
        obtain q s3 w3 where u: "ll_unique_insert k b s w = (q, s3, w3)"
          by (cases "ll_unique_insert k b s w") auto
        from hs_insert_no_growth [OF assms(3) Inr None nm False, of w] assms(1) u
        obtain e' where "q = Inl e'" "s' = s3" by (cases q) auto
        with u ll_unique_insert_Inl(1) [of k b s w e' s3 w3] show ?thesis by simp
      next
        case True
        note g = hs_insert_growth [OF assms(3) Inr None nm True, of w]
        obtain r s2 w2 where i: "ll_increase_size s w = (r, s2, w2)"
          by (cases "ll_increase_size s w") auto
        show ?thesis
        proof (cases r)
          case (Inl e')
          with g i assms(1) have "e' = e" "s2 = s'" "w2 = w'" by simp_all
          with ll_increase_size_Inl [of s w e s' w'] i Inl assms(2) show ?thesis by auto
        next
          case u: (Inr u)
          from ll_increase_size_Inr [of s w u s2 w2] i u obtain j where
            r: "rehash (table_sizes ! Suc j) s w = (Inr u, s2, w2)"
            and bc: "bucket_count s < bucket_count s2" by auto
          from rehash_Inr(3) [OF r] h bc
          have b2: "ll_bucket k s2 = Inr (h mod bucket_count s2)"
            by (simp add: ll_bucket_def)
          obtain q s3 w3 where p: "ll_unique_insert k (h mod bucket_count s2) s2 w2 = (q, s3, w3)"
            by (cases "ll_unique_insert k (h mod bucket_count s2) s2 w2") auto
          from g i u b2 p assms(1) obtain e' where "q = Inl e'" "s' = s3" by (cases q) auto
          with p ll_unique_insert_Inl(1) [of k "h mod bucket_count s2" s2 w2 e' s3 w3]
          have "s' = s2" by simp
          with i u True show ?thesis by auto
        qed
      qed
    qed
  qed
qed

lemma clear_props:
  "bucket_count (clear s) = 0" "hs_size (clear s) = 0" "elements (clear s) = []"
  by (simp_all add: clear_def bucket_count_def hs_size_def elements_def)

text \<open>
  An exception out of the loop of \<open>rehash\<close> empties the table and the half-built new
  table, which held a part of the keys only; the same holds when \<open>_increase_size\<close>
  calls \<open>rehash\<close> for \<open>insert\<close>.
\<close>

lemma rehash_failure_clears:
  assumes "hash_set_n_buckets new_size (m_hasher s) (m_key_equal s) w = (Inr new_table, w1)"
    and "rehash_loop (elements s) new_table w1 = (Inl e, half_built, w2)"
    and "e \<noteq> Assertion_failure"
  shows "rehash_body new_size s w = (Inl e, clear s, Some (clear half_built), w2)"
    and "rehash new_size s w = (Inl e, clear s, w2)"
    and "bucket_count (clear s) = 0 \<and> hs_size (clear s) = 0 \<and> elements (clear s) = []"
    and "bucket_count (clear half_built) = 0 \<and> hs_size (clear half_built) = 0 \<and>
         elements (clear half_built) = []"
proof -
  show "rehash_body new_size s w = (Inl e, clear s, Some (clear half_built), w2)"
    using assms by (simp add: rehash_body_def)
  then show "rehash new_size s w = (Inl e, clear s, w2)" by (simp add: rehash_def)
qed (simp_all add: clear_props)

lemma finish_outcome:
  assumes "(case ll_unique_insert k c t w0 of
              (Inl e, s3, w3) \<Rightarrow> (Inl e, s3, w3)
            | (Inr it, s3, w3) \<Rightarrow>
                (Inr (it, True), s3\<lparr>m_n_elements := m_n_elements s3 + 1\<rparr>, w3)) = (r, s', w')"
  shows "bucket_count s' = bucket_count t"
    and "\<forall>e. r = Inl e \<longrightarrow> s' = t"
    and "\<forall>it flag. r = Inr (it, flag) \<longrightarrow>
           flag \<and> m_idx it = c \<and>
           (\<exists>pos. m_it it = Some pos \<and> pos < length (m_container s' ! c) \<and>
                  m_container s' ! c ! pos = k) \<and>
           m_n_elements s' = m_n_elements t + 1 \<and>
           mset (elements s') = add_mset k (mset (elements t)) \<and>
           m_container s' = (m_container t)
             [c := (case m_container t ! c of [] \<Rightarrow> [k] | first # rest \<Rightarrow> first # k # rest)]"
proof -
  obtain q s3 w3 where u: "ll_unique_insert k c t w0 = (q, s3, w3)"
    by (cases "ll_unique_insert k c t w0") auto
  show "bucket_count s' = bucket_count t"
    using assms u ll_unique_insert_frame(1) [OF u]
    by (cases q) (auto simp: bucket_count_def)
  show "\<forall>e. r = Inl e \<longrightarrow> s' = t"
  proof (cases q)
    case (Inl e')
    with assms u ll_unique_insert_Inl(1) [of k c t w0 e' s3 w3] show ?thesis by auto
  next
    case (Inr it)
    with assms u show ?thesis by auto
  qed
  show "\<forall>it flag. r = Inr (it, flag) \<longrightarrow>
           flag \<and> m_idx it = c \<and>
           (\<exists>pos. m_it it = Some pos \<and> pos < length (m_container s' ! c) \<and>
                  m_container s' ! c ! pos = k) \<and>
           m_n_elements s' = m_n_elements t + 1 \<and>
           mset (elements s') = add_mset k (mset (elements t)) \<and>
           m_container s' = (m_container t)
             [c := (case m_container t ! c of [] \<Rightarrow> [k] | first # rest \<Rightarrow> first # k # rest)]"
  proof (cases q)
    case (Inl e')
    with assms u show ?thesis by auto
  next
    case (Inr it0)
    with assms u have r: "r = Inr (it0, True)"
      and s': "s' = s3\<lparr>m_n_elements := m_n_elements s3 + 1\<rparr>" by auto
    note p = placed [OF u [unfolded Inr] s']
    from r p(4,5,6,7,8) show ?thesis by simp
  qed
qed

text \<open>
  When no step fails and the hasher succeeds, \<open>insert\<close> returns, with \<open>true\<close> for a key
  that no stored key equals, as long as the table holds fewer keys than the largest
  size class has buckets.
\<close>

lemma hs_insert_returns_nonzero:
  assumes bt: "bucket_count s \<in> set table_sizes" and nz: "bucket_count s \<noteq> 0"
    and total: "\<forall>x \<in> set (k # elements s). \<exists>n. m_hasher s x = Inr n"
    and bound: "m_n_elements s < 824633720831"
    and ff: "fault_free w"
  shows "\<exists>it flag s' w'. hs_insert k s w = (Inr (it, flag), s', w') \<and>
           m_n_elements s' \<le> m_n_elements s + 1 \<and> fault_free w' \<and>
           ((\<forall>x \<in> set (elements s). \<not> m_key_equal s x k) \<longrightarrow> flag)"
proof -
  from total obtain n where n: "m_hasher s k = Inr n" by auto
  let ?b = "n mod bucket_count s"
  have b: "ll_bucket k s = Inr ?b" using n nz by (simp add: ll_bucket_def)
  have lt: "?b < bucket_count s" using nz by simp
  show ?thesis
  proof (cases "find_in_bucket (m_key_equal s) k (m_container s ! ?b) 0")
    case (Some pos)
    from find_in_bucket_Some [OF Some] have "pos < length (m_container s ! ?b)"
      "m_key_equal s (m_container s ! ?b ! pos) k" by simp_all
    then have "\<exists>x \<in> set (m_container s ! ?b). m_key_equal s x k" by (metis nth_mem)
    with lt have "\<exists>x \<in> set (elements s). m_key_equal s x k"
      using elements_bucket [of _ s] by blast
    with hs_insert_present [OF b Some, of w] ff show ?thesis by auto
  next
    case None
    have nm: "m_n_elements s \<noteq> size_type_max" using bound by (simp add: size_type_max_def)
    show ?thesis
    proof (cases "bucket_count s < m_n_elements s + 1")
      case False
      from ll_unique_insert_fault_free [OF lt ff, of k] obtain it s3 w3 where
        u: "ll_unique_insert k ?b s w = (Inr it, s3, w3)" and ff3: "fault_free w3" by blast
      let ?s' = "s3\<lparr>m_n_elements := m_n_elements s3 + 1\<rparr>"
      have "hs_insert k s w = (Inr (it, True), ?s', w3)"
        using hs_insert_no_growth [OF nz b None nm False, of w] u by simp
      moreover have "m_n_elements ?s' \<le> m_n_elements s + 1"
        using ll_unique_insert_frame(4) [OF u] by simp
      ultimately show ?thesis using ff3 by blast
    next
      case True
      with bound have "bucket_count s < 824633720831" by simp
      from ll_increase_size_returns [OF bt this _ ff] total
      obtain s2 w2 where g: "ll_increase_size s w = (Inr (), s2, w2)"
        and ff2: "fault_free w2" by auto
      from ll_increase_size_Inr [OF g] obtain i where
        r: "rehash (table_sizes ! Suc i) s w = (Inr (), s2, w2)"
        and bc: "bucket_count s < bucket_count s2" by auto
      note rr = rehash_Inr [OF r]
      let ?c = "n mod bucket_count s2"
      have b2: "ll_bucket k s2 = Inr ?c"
        using rr(3) n bc by (simp add: ll_bucket_def)
      have "?c < bucket_count s2" using bc by simp
      from ll_unique_insert_fault_free [OF this ff2, of k] obtain it s3 w3 where
        u: "ll_unique_insert k ?c s2 w2 = (Inr it, s3, w3)" and ff3: "fault_free w3" by blast
      let ?s' = "s3\<lparr>m_n_elements := m_n_elements s3 + 1\<rparr>"
      have "hs_insert k s w = (Inr (it, True), ?s', w3)"
        using hs_insert_growth [OF nz b None nm True, of w] g b2 u by simp
      moreover have "m_n_elements ?s' \<le> m_n_elements s + 1"
        using ll_unique_insert_frame(4) [OF u] rr(5) by simp
      ultimately show ?thesis using ff3 by blast
    qed
  qed
qed

lemma hs_insert_returns:
  assumes bt: "bucket_count s \<in> set table_sizes"
    and total: "\<forall>x \<in> set (k # elements s). \<exists>n. m_hasher s x = Inr n"
    and bound: "m_n_elements s < 824633720831"
    and ff: "fault_free w"
  shows "\<exists>it flag s' w'. hs_insert k s w = (Inr (it, flag), s', w') \<and>
           m_n_elements s' \<le> m_n_elements s + 1 \<and> fault_free w'"
proof (cases "bucket_count s = 0")
  case False
  from hs_insert_returns_nonzero [OF bt False total bound ff] show ?thesis by blast
next
  case True
  let ?s1 = "s\<lparr>m_container := [[]]\<rparr>"
  from fallible_step_fault_free [OF ff] obtain w1 where
    f: "fallible_step w = (Inr (), w1)" and ff1: "fault_free w1" by blast
  have 1: "bucket_count ?s1 \<in> set table_sizes" "bucket_count ?s1 \<noteq> 0"
    by (simp_all add: bucket_count_def table_sizes_def)
  have "elements ?s1 = elements s" using True by (simp add: elements_def bucket_count_def)
  with total have 2: "\<forall>x \<in> set (k # elements ?s1). \<exists>n. m_hasher ?s1 x = Inr n" by simp
  have 3: "m_n_elements ?s1 < 824633720831" using bound by simp
  from hs_insert_returns_nonzero [OF 1 2 3 ff1] obtain it flag s' w' where
    "hs_insert k ?s1 w1 = (Inr (it, flag), s', w')" "m_n_elements s' \<le> m_n_elements ?s1 + 1"
    "fault_free w'" by blast
  then have "hs_insert k s w = (Inr (it, flag), s', w') \<and>
      m_n_elements s' \<le> m_n_elements s + 1 \<and> fault_free w'"
    by (simp add: hs_insert_zero [OF True] f)
  then show ?thesis by blast
qed

text \<open>
  Claim C2. Take a table with at least one bucket and a key \<open>k\<close> that no stored key
  equals, with the hasher answering \<open>h\<close> for it and the count below its maximum, and
  let \<open>insert(k)\<close> end with the outcome \<open>r\<close> and the table \<open>s'\<close>, whatever steps fail.
  A returning call answers \<open>true\<close>, the key sits at the iterator in the bucket that
  \<open>h\<close> selects among the final number of buckets, and the table holds one key more.
  If \<open>(m_n_elements + 1) / bucket_count() > 1\<close>, the count being the one before the
  key is placed, \<open>_increase_size\<close> runs first: when it fails, \<open>insert\<close> fails as it did;
  when it returns, the bucket count is the next entry of \<open>table_sizes\<close>, and the key is
  placed into the rehashed table at a bucket index computed anew. Otherwise the bucket
  count is what it was and only the destination bucket changes. Such a call does
  return, answering \<open>true\<close>, when no allocation and no constructor fails and the hasher
  succeeds on the key and on the stored keys. An \<open>insert\<close> into a table with no buckets
  first grows it to the first nonzero size class, one bucket, and proceeds from there.
\<close>

theorem insert_rehash_trigger:
  "(bucket_count s \<noteq> 0 \<and> (\<forall>x \<in> set (elements s). \<not> m_key_equal s x k) \<and>
    m_hasher s k = Inr h \<and> m_n_elements s \<noteq> size_type_max \<and>
    hs_insert k s w = (r, s', w') \<longrightarrow>
      (\<forall>it flag. r = Inr (it, flag) \<longrightarrow>
         flag \<and> m_idx it = h mod bucket_count s' \<and>
         (\<exists>pos. m_it it = Some pos \<and> pos < length (m_container s' ! m_idx it) \<and>
                m_container s' ! m_idx it ! pos = k) \<and>
         hs_size s' = hs_size s + 1 \<and>
         mset (elements s') = add_mset k (mset (elements s))) \<and>
      (if real (m_n_elements s + 1) / real (bucket_count s) > get_max_load_factor
       then \<exists>q s2 w2. ll_increase_size s w = (q, s2, w2) \<and>
              (case q of
                 Inl e \<Rightarrow> r = Inl e \<and> s' = s2 \<and> w' = w2
               | Inr u \<Rightarrow>
                   (\<exists>i. get_size_index s = Inr i \<and> bucket_count s2 = table_sizes ! Suc i) \<and>
                   bucket_count s < bucket_count s2 \<and>
                   mset (elements s2) = mset (elements s) \<and>
                   bucket_count s' = bucket_count s2 \<and>
                   (\<forall>it. r = Inr (it, True) \<longrightarrow>
                      m_container s' = (m_container s2)
                        [m_idx it := (case m_container s2 ! m_idx it of
                                        [] \<Rightarrow> [k] | first # rest \<Rightarrow> first # k # rest)]))
       else bucket_count s' = bucket_count s \<and>
            (\<forall>e. r = Inl e \<longrightarrow> s' = s) \<and>
            (\<forall>it. r = Inr (it, True) \<longrightarrow>
               m_container s' = (m_container s)
                 [m_idx it := (case m_container s ! m_idx it of
                                 [] \<Rightarrow> [k] | first # rest \<Rightarrow> first # k # rest)]))) \<and>
   (bucket_count s \<noteq> 0 \<and> (\<forall>x \<in> set (elements s). \<not> m_key_equal s x k) \<and>
    bucket_count s \<in> set table_sizes \<and> m_n_elements s < 824633720831 \<and>
    (\<forall>x \<in> set (k # elements s). \<exists>n. m_hasher s x = Inr n) \<and> fault_free w \<longrightarrow>
      (\<exists>it s' w'. hs_insert k s w = (Inr (it, True), s', w'))) \<and>
   (bucket_count s = 0 \<longrightarrow>
      (case fallible_step w of
         (Inl e, w1) \<Rightarrow> hs_insert k s w = (Inl e, s, w1)
       | (Inr u, w1) \<Rightarrow>
           ll_increase_size s w = (Inr (), s\<lparr>m_container := [[]]\<rparr>, w1) \<and>
           bucket_count (s\<lparr>m_container := [[]]\<rparr>) = table_sizes ! 1 \<and>
           hs_insert k s w = hs_insert k (s\<lparr>m_container := [[]]\<rparr>) w1))"
proof (intro conjI impI)
  assume a: "bucket_count s \<noteq> 0 \<and> (\<forall>x \<in> set (elements s). \<not> m_key_equal s x k) \<and>
    m_hasher s k = Inr h \<and> m_n_elements s \<noteq> size_type_max \<and>
    hs_insert k s w = (r, s', w')"
  then have nz: "bucket_count s \<noteq> 0"
    and absent: "\<forall>x \<in> set (elements s). \<not> m_key_equal s x k"
    and h: "m_hasher s k = Inr h" and nm: "m_n_elements s \<noteq> size_type_max"
    and ins: "hs_insert k s w = (r, s', w')"
    by simp_all
  let ?b = "h mod bucket_count s"
  have b: "ll_bucket k s = Inr ?b" using h nz by (simp add: ll_bucket_def)
  have lt: "?b < bucket_count s" using nz by simp
  with absent have "\<forall>x \<in> set (m_container s ! ?b). \<not> m_key_equal s x k"
    using elements_bucket [of _ s] by blast
  then have none: "find_in_bucket (m_key_equal s) k (m_container s ! ?b) 0 = None"
    by (simp add: find_in_bucket_None)
  have lf: "(get_max_load_factor < real (m_n_elements s + 1) / real (bucket_count s))
            = (bucket_count s < m_n_elements s + 1)"
    using nz by (intro load_factor_check) simp
  show "\<forall>it flag. r = Inr (it, flag) \<longrightarrow>
         flag \<and> m_idx it = h mod bucket_count s' \<and>
         (\<exists>pos. m_it it = Some pos \<and> pos < length (m_container s' ! m_idx it) \<and>
                m_container s' ! m_idx it ! pos = k) \<and>
         hs_size s' = hs_size s + 1 \<and>
         mset (elements s') = add_mset k (mset (elements s))"
  proof (intro allI impI)
    fix it flag assume r: "r = Inr (it, flag)"
    \<comment> \<open>The table \<open>t\<close> into which the key is finally placed, at bucket \<open>c\<close>.\<close>
    have "\<exists>t c. c = h mod bucket_count t \<and> bucket_count s' = bucket_count t \<and>
            m_n_elements t = m_n_elements s \<and> mset (elements t) = mset (elements s) \<and>
            flag \<and> m_idx it = c \<and>
            (\<exists>pos. m_it it = Some pos \<and> pos < length (m_container s' ! c) \<and>
                   m_container s' ! c ! pos = k) \<and>
            m_n_elements s' = m_n_elements t + 1 \<and>
            mset (elements s') = add_mset k (mset (elements t))"
    proof (cases "bucket_count s < m_n_elements s + 1")
      case False
      note e = hs_insert_no_growth [OF nz b none nm False, of w, unfolded ins, symmetric]
      note fo = finish_outcome [OF e]
      from fo(3) [rule_format, OF r] fo(1) show ?thesis
        by (intro exI [of _ s] exI [of _ ?b]) blast
    next
      case True
      note g = hs_insert_growth [OF nz b none nm True, of w, unfolded ins]
      obtain q s2 w2 where i: "ll_increase_size s w = (q, s2, w2)"
        by (cases "ll_increase_size s w") auto
      show ?thesis
      proof (cases q)
        case (Inl e)
        with g i r show ?thesis by auto
      next
        case (Inr u)
        from ll_increase_size_Inr [OF i [unfolded Inr]] obtain j where
          rh: "rehash (table_sizes ! Suc j) s w = (Inr u, s2, w2)"
          and bc: "bucket_count s < bucket_count s2" by auto
        note rr = rehash_Inr [OF rh]
        have b2: "ll_bucket k s2 = Inr (h mod bucket_count s2)"
          using rr(3) h bc by (simp add: ll_bucket_def)
        from g i Inr b2 have e: "(case ll_unique_insert k (h mod bucket_count s2) s2 w2 of
                (Inl e, s3, w3) \<Rightarrow> (Inl e, s3, w3)
              | (Inr it, s3, w3) \<Rightarrow>
                  (Inr (it, True), s3\<lparr>m_n_elements := m_n_elements s3 + 1\<rparr>, w3)) = (r, s', w')"
          by simp
        note fo = finish_outcome [OF e]
        from fo(3) [rule_format, OF r] fo(1) rr(2,5) show ?thesis
          by (intro exI [of _ s2] exI [of _ "h mod bucket_count s2"]) blast
      qed
    qed
    then obtain t c where c: "c = h mod bucket_count t" and bt: "bucket_count s' = bucket_count t"
      and t: "m_n_elements t = m_n_elements s" "mset (elements t) = mset (elements s)"
      and f: "flag" "m_idx it = c"
        "\<exists>pos. m_it it = Some pos \<and> pos < length (m_container s' ! c) \<and>
               m_container s' ! c ! pos = k"
        "m_n_elements s' = m_n_elements t + 1"
        "mset (elements s') = add_mset k (mset (elements t))"
      by blast
    from c bt f(2) have "m_idx it = h mod bucket_count s'" by simp
    moreover from f(2,3) have "\<exists>pos. m_it it = Some pos \<and>
        pos < length (m_container s' ! m_idx it) \<and> m_container s' ! m_idx it ! pos = k"
      by simp
    moreover from f(4) t(1) have "hs_size s' = hs_size s + 1" by (simp add: hs_size_def)
    moreover from f(5) t(2) have "mset (elements s') = add_mset k (mset (elements s))"
      by simp
    ultimately show "flag \<and> m_idx it = h mod bucket_count s' \<and>
         (\<exists>pos. m_it it = Some pos \<and> pos < length (m_container s' ! m_idx it) \<and>
                m_container s' ! m_idx it ! pos = k) \<and>
         hs_size s' = hs_size s + 1 \<and>
         mset (elements s') = add_mset k (mset (elements s))"
      using f(1) by blast
  qed
  show "if real (m_n_elements s + 1) / real (bucket_count s) > get_max_load_factor
       then \<exists>q s2 w2. ll_increase_size s w = (q, s2, w2) \<and>
              (case q of
                 Inl e \<Rightarrow> r = Inl e \<and> s' = s2 \<and> w' = w2
               | Inr u \<Rightarrow>
                   (\<exists>i. get_size_index s = Inr i \<and> bucket_count s2 = table_sizes ! Suc i) \<and>
                   bucket_count s < bucket_count s2 \<and>
                   mset (elements s2) = mset (elements s) \<and>
                   bucket_count s' = bucket_count s2 \<and>
                   (\<forall>it. r = Inr (it, True) \<longrightarrow>
                      m_container s' = (m_container s2)
                        [m_idx it := (case m_container s2 ! m_idx it of
                                        [] \<Rightarrow> [k] | first # rest \<Rightarrow> first # k # rest)]))
       else bucket_count s' = bucket_count s \<and>
            (\<forall>e. r = Inl e \<longrightarrow> s' = s) \<and>
            (\<forall>it. r = Inr (it, True) \<longrightarrow>
               m_container s' = (m_container s)
                 [m_idx it := (case m_container s ! m_idx it of
                                 [] \<Rightarrow> [k] | first # rest \<Rightarrow> first # k # rest)])"
  proof (cases "bucket_count s < m_n_elements s + 1")
    case False
    note e = hs_insert_no_growth [OF nz b none nm False, of w, unfolded ins, symmetric]
    note fo = finish_outcome [OF e]
    from fo False show ?thesis unfolding lf by simp
  next
    case True
    note g = hs_insert_growth [OF nz b none nm True, of w, unfolded ins]
    obtain q s2 w2 where i: "ll_increase_size s w = (q, s2, w2)"
      by (cases "ll_increase_size s w") auto
    have "case q of
                 Inl e \<Rightarrow> r = Inl e \<and> s' = s2 \<and> w' = w2
               | Inr u \<Rightarrow>
                   (\<exists>i. get_size_index s = Inr i \<and> bucket_count s2 = table_sizes ! Suc i) \<and>
                   bucket_count s < bucket_count s2 \<and>
                   mset (elements s2) = mset (elements s) \<and>
                   bucket_count s' = bucket_count s2 \<and>
                   (\<forall>it. r = Inr (it, True) \<longrightarrow>
                      m_container s' = (m_container s2)
                        [m_idx it := (case m_container s2 ! m_idx it of
                                        [] \<Rightarrow> [k] | first # rest \<Rightarrow> first # k # rest)])"
    proof (cases q)
      case (Inl e)
      with g i show ?thesis by auto
    next
      case (Inr u)
      from ll_increase_size_Inr [OF i [unfolded Inr]] obtain j where
        j: "get_size_index s = Inr j" "bucket_count s2 = table_sizes ! Suc j"
        and rh: "rehash (table_sizes ! Suc j) s w = (Inr u, s2, w2)"
        and bc: "bucket_count s < bucket_count s2" by auto
      note rr = rehash_Inr [OF rh]
      have b2: "ll_bucket k s2 = Inr (h mod bucket_count s2)"
        using rr(3) h bc by (simp add: ll_bucket_def)
      from g i Inr b2 have e: "(case ll_unique_insert k (h mod bucket_count s2) s2 w2 of
              (Inl e, s3, w3) \<Rightarrow> (Inl e, s3, w3)
            | (Inr it, s3, w3) \<Rightarrow>
                (Inr (it, True), s3\<lparr>m_n_elements := m_n_elements s3 + 1\<rparr>, w3)) = (r, s', w')"
        by simp
      note fo = finish_outcome [OF e]
      from fo(1,3) j bc rr(2) Inr show ?thesis by simp
    qed
    with i True show ?thesis unfolding lf by auto
  qed
next
  assume "bucket_count s \<noteq> 0 \<and> (\<forall>x \<in> set (elements s). \<not> m_key_equal s x k) \<and>
    bucket_count s \<in> set table_sizes \<and> m_n_elements s < 824633720831 \<and>
    (\<forall>x \<in> set (k # elements s). \<exists>n. m_hasher s x = Inr n) \<and> fault_free w"
  then have 1: "bucket_count s \<in> set table_sizes" "bucket_count s \<noteq> 0"
    "\<forall>x \<in> set (k # elements s). \<exists>n. m_hasher s x = Inr n" "m_n_elements s < 824633720831"
    "fault_free w" and absent: "\<forall>x \<in> set (elements s). \<not> m_key_equal s x k"
    by simp_all
  from hs_insert_returns_nonzero [OF 1] obtain it flag s' w' where
    "hs_insert k s w = (Inr (it, flag), s', w')"
    "(\<forall>x \<in> set (elements s). \<not> m_key_equal s x k) \<longrightarrow> flag" by blast
  with absent have "hs_insert k s w = (Inr (it, True), s', w')" by simp
  then show "\<exists>it s' w'. hs_insert k s w = (Inr (it, True), s', w')" by blast
next
  assume z: "bucket_count s = 0"
  obtain q w1 where f: "fallible_step w = (q, w1)" by (cases "fallible_step w")
  show "case fallible_step w of
         (Inl e, w1) \<Rightarrow> hs_insert k s w = (Inl e, s, w1)
       | (Inr u, w1) \<Rightarrow>
           ll_increase_size s w = (Inr (), s\<lparr>m_container := [[]]\<rparr>, w1) \<and>
           bucket_count (s\<lparr>m_container := [[]]\<rparr>) = table_sizes ! 1 \<and>
           hs_insert k s w = hs_insert k (s\<lparr>m_container := [[]]\<rparr>) w1"
    using f by (cases q)
      (simp_all add: hs_insert_zero [OF z] ll_increase_size_zero [OF z] bucket_count_def
        table_sizes_def)
qed

theorem insert_rehash_trigger_witness:
  "(\<exists>it s' w'. hs_insert (3::nat)
        \<lparr>m_container = [[1]], m_hasher = Inr, m_key_equal = (=), m_n_elements = 1\<rparr> []
        = (Inr (it, True), s', w') \<and>
      m_idx it = 0 \<and> hs_size s' = 2 \<and> bucket_count s' = 3 \<and>
      mset (elements s') = {#3, 1#}) \<and>
   (\<exists>it s' w'. hs_insert (5::nat)
        \<lparr>m_container = [[3], [1], []], m_hasher = Inr, m_key_equal = (=), m_n_elements = 2\<rparr> []
        = (Inr (it, True), s', w') \<and>
      m_idx it = 2 \<and> hs_size s' = 3 \<and> bucket_count s' = 3 \<and>
      m_container s' = [[3], [1], [5]]) \<and>
   hs_insert (5::nat) (hash_set_default Inr (=)) [] =
     hs_insert 5 (hash_set_default Inr (=)\<lparr>m_container := [[]]\<rparr>) []"
proof -
  let ?t = "\<lparr>m_container = [[1::nat]], m_hasher = Inr, m_key_equal = (=), m_n_elements = 1\<rparr>"
  let ?s = "\<lparr>m_container = [[3], [1::nat], []], m_hasher = Inr, m_key_equal = (=),
    m_n_elements = 2\<rparr>"
  let ?w = "[] :: faults"
  \<comment> \<open>An insertion that makes the table grow.\<close>
  have rt: "bucket_count ?t \<noteq> 0 \<and> (\<forall>x \<in> set (elements ?t). \<not> m_key_equal ?t x 3) \<and>
    bucket_count ?t \<in> set table_sizes \<and> m_n_elements ?t < 824633720831 \<and>
    (\<forall>x \<in> set (3 # elements ?t). \<exists>n. m_hasher ?t x = Inr n) \<and> fault_free ?w"
    by (simp add: bucket_count_def elements_def table_sizes_def fault_free_def)
  from insert_rehash_trigger [where s = ?t and k = 3 and w = ?w,
      THEN conjunct2, THEN conjunct1, THEN mp, OF rt]
  obtain it s' w' where i: "hs_insert 3 ?t ?w = (Inr (it, True), s', w')" by blast
  have ht: "bucket_count ?t \<noteq> 0 \<and> (\<forall>x \<in> set (elements ?t). \<not> m_key_equal ?t x 3) \<and>
    m_hasher ?t 3 = Inr 3 \<and> m_n_elements ?t \<noteq> size_type_max \<and>
    hs_insert 3 ?t ?w = (Inr (it, True), s', w')"
    using i by (simp add: bucket_count_def elements_def size_type_max_def)
  note c = insert_rehash_trigger [where s = ?t and k = 3 and w = ?w and h = 3
      and r = "Inr (it, True)" and s' = s' and w' = w',
      THEN conjunct1, THEN mp, OF ht]
  from c [THEN conjunct1, rule_format, of it True, OF refl]
  have p: "m_idx it = 3 mod bucket_count s'"
    "hs_size s' = hs_size ?t + 1" "mset (elements s') = add_mset 3 (mset (elements ?t))"
    by simp_all
  have lf: "real (m_n_elements ?t + 1) / real (bucket_count ?t) > get_max_load_factor"
    by (simp add: bucket_count_def get_max_load_factor_def)
  note g = c [THEN conjunct2, unfolded if_P [OF lf]]
  have gi: "get_size_index ?t = Inr 1"
    by (simp add: get_size_index_def bucket_count_def table_sizes_def)
  have t2: "table_sizes ! Suc 1 = 3" by (simp add: table_sizes_def)
  from g gi t2 have bc: "bucket_count s' = 3" by (elim exE conjE, case_tac q) auto
  from p bc have a: "m_idx it = 0 \<and> hs_size s' = 2 \<and> bucket_count s' = 3 \<and>
      mset (elements s') = {#3, 1#}"
    by (simp add: hs_size_def elements_def)
  \<comment> \<open>An insertion that leaves the bucket count alone.\<close>
  have rs: "bucket_count ?s \<noteq> 0 \<and> (\<forall>x \<in> set (elements ?s). \<not> m_key_equal ?s x 5) \<and>
    bucket_count ?s \<in> set table_sizes \<and> m_n_elements ?s < 824633720831 \<and>
    (\<forall>x \<in> set (5 # elements ?s). \<exists>n. m_hasher ?s x = Inr n) \<and> fault_free ?w"
    by (simp add: bucket_count_def elements_def table_sizes_def fault_free_def)
  from insert_rehash_trigger [where s = ?s and k = 5 and w = ?w,
      THEN conjunct2, THEN conjunct1, THEN mp, OF rs]
  obtain it1 s1 w1 where i1: "hs_insert 5 ?s ?w = (Inr (it1, True), s1, w1)" by blast
  have hs: "bucket_count ?s \<noteq> 0 \<and> (\<forall>x \<in> set (elements ?s). \<not> m_key_equal ?s x 5) \<and>
    m_hasher ?s 5 = Inr 5 \<and> m_n_elements ?s \<noteq> size_type_max \<and>
    hs_insert 5 ?s ?w = (Inr (it1, True), s1, w1)"
    using i1 by (simp add: bucket_count_def elements_def size_type_max_def)
  note d = insert_rehash_trigger [where s = ?s and k = 5 and w = ?w and h = 5
      and r = "Inr (it1, True)" and s' = s1 and w' = w1,
      THEN conjunct1, THEN mp, OF hs]
  have lf': "\<not> real (m_n_elements ?s + 1) / real (bucket_count ?s) > get_max_load_factor"
    by (simp add: bucket_count_def get_max_load_factor_def)
  from d [THEN conjunct2, unfolded if_not_P [OF lf']]
  have e: "bucket_count s1 = bucket_count ?s"
    "m_container s1 = (m_container ?s)
       [m_idx it1 := (case m_container ?s ! m_idx it1 of
                        [] \<Rightarrow> [5] | first # rest \<Rightarrow> first # 5 # rest)]"
    by simp_all
  from d [THEN conjunct1, rule_format, of it1 True, OF refl]
  have p1: "m_idx it1 = 5 mod bucket_count s1"
    "hs_size s1 = hs_size ?s + 1" by simp_all
  from e(1) p1(1) have ix: "m_idx it1 = 2" by (simp add: bucket_count_def)
  from e(2) have mc: "m_container s1 = [[3], [1], [5]]" unfolding ix by simp
  from ix p1(2) e(1) mc have b: "m_idx it1 = 2 \<and> hs_size s1 = 3 \<and> bucket_count s1 = 3 \<and>
      m_container s1 = [[3], [1], [5]]"
    by (simp add: hs_size_def bucket_count_def)
  \<comment> \<open>An insertion into a table without buckets.\<close>
  have z: "bucket_count (hash_set_default Inr ((=) :: nat \<Rightarrow> nat \<Rightarrow> bool)) = 0"
    by (simp add: bucket_count_def hash_set_default_def)
  from insert_rehash_trigger [where s = "hash_set_default Inr (=)" and k = 5 and w = ?w,
      THEN conjunct2, THEN conjunct2, THEN mp, OF z]
  have c0: "hs_insert (5::nat) (hash_set_default Inr (=)) [] =
     hs_insert 5 (hash_set_default Inr (=)\<lparr>m_container := [[]]\<rparr>) []"
    by simp
  from i a have "\<exists>it s' w'. hs_insert (3::nat) ?t [] = (Inr (it, True), s', w') \<and>
      m_idx it = 0 \<and> hs_size s' = 2 \<and> bucket_count s' = 3 \<and>
      mset (elements s') = {#3, 1#}"
    by blast
  moreover from i1 b have "\<exists>it s' w'. hs_insert (5::nat) ?s [] = (Inr (it, True), s', w') \<and>
      m_idx it = 2 \<and> hs_size s' = 3 \<and> bucket_count s' = 3 \<and>
      m_container s' = [[3], [1], [5]]"
    by blast
  ultimately show ?thesis using c0 by blast
qed

subsection \<open>Uniqueness of keys\<close>

lemma length_filter_mset:
  "length (filter P xs) = size (filter_mset P (mset xs))"
  by (metis mset_filter size_mset)

lemma absent_everywhere:
  assumes wp: "well_placed s"
    and resp: "\<forall>x y. m_key_equal s x y \<longrightarrow> m_hasher s x = m_hasher s y"
    and b: "ll_bucket k s = Inr b"
    and none: "find_in_bucket (m_key_equal s) k (m_container s ! b) 0 = None"
  shows "\<forall>x \<in> set (elements s). \<not> m_key_equal s x k"
proof (intro ballI notI)
  fix x assume x: "x \<in> set (elements s)" and e: "m_key_equal s x k"
  from x obtain i where i: "i < bucket_count s" "x \<in> set (m_container s ! i)"
    by (auto simp: elements_bucket)
  with wp have "ll_bucket x s = Inr i" by (simp add: well_placed_def)
  moreover from e resp have "m_hasher s x = m_hasher s k" by blast
  then have "ll_bucket x s = ll_bucket k s" by (simp add: ll_bucket_def)
  ultimately have "i = b" using b by simp
  with i none e show False by (simp add: find_in_bucket_None)
qed

lemma unique_add:
  assumes m: "mset ys = add_mset k (mset xs)"
    and u: "\<forall>k'. length (filter (\<lambda>x. eq x k') xs) \<le> 1"
    and a: "\<forall>x \<in> set xs. \<not> eq x k"
    and sym: "\<forall>x y. eq x y \<longrightarrow> eq y x"
    and trans: "\<forall>x y z. eq x y \<longrightarrow> eq y z \<longrightarrow> eq x z"
  shows "length (filter (\<lambda>x. eq x k') ys) \<le> 1"
proof (cases "eq k k'")
  case True
  have "\<not> eq x k'" if "x \<in> set xs" for x
  proof
    assume "eq x k'"
    moreover from True sym have "eq k' k" by blast
    ultimately have "eq x k" using trans by blast
    with a that show False by blast
  qed
  then have "filter (\<lambda>x. eq x k') xs = []" by (simp add: filter_empty_conv)
  then have "size (filter_mset (\<lambda>x. eq x k') (mset xs)) = 0"
    by (simp add: length_filter_mset [symmetric])
  with True show ?thesis by (simp add: length_filter_mset m)
next
  case False
  with u [rule_format, of k'] show ?thesis by (simp add: length_filter_mset m)
qed

lemma table_inv_grow:
  assumes "table_inv h eq s" "bucket_count s = 0"
  shows "table_inv h eq (s\<lparr>m_container := [[]]\<rparr>)"
  using assms
  by (auto simp: table_inv_def well_placed_def unique_keys_def elements_def bucket_count_def
      table_sizes_def)

lemma table_inv_insert_nonzero:
  assumes inv: "table_inv h eq s" and nz: "bucket_count s \<noteq> 0"
    and refl: "\<forall>x. eq x x"
    and sym: "\<forall>x y. eq x y \<longrightarrow> eq y x"
    and trans: "\<forall>x y z. eq x y \<longrightarrow> eq y z \<longrightarrow> eq x z"
    and resp: "\<forall>x y. eq x y \<longrightarrow> h x = h y"
    and ins: "hs_insert k s w = (Inr (it, flag), s', w')"
  shows "table_inv h eq s' \<and> (\<exists>x \<in> set (elements s'). eq x k) \<and>
         set (elements s) \<subseteq> set (elements s') \<and>
         set (elements s') \<subseteq> insert k (set (elements s))"
proof -
  from inv have hs: "m_hasher s = h" and es: "m_key_equal s = eq" and wp: "well_placed s"
    and uk: "unique_keys s" and ne: "m_n_elements s = length (elements s)"
    and bt: "bucket_count s \<in> set table_sizes"
    by (simp_all add: table_inv_def)
  from ins obtain b where b: "ll_bucket k s = Inr b"
    using nz by (auto simp: hs_insert_def split: sum.splits)
  from ll_bucket_Inr [OF b] have lt: "b < bucket_count s" by simp
  show ?thesis
  proof (cases "find_in_bucket eq k (m_container s ! b) 0")
    case (Some pos)
    with hs_insert_present [OF b, of pos w] ins es have s': "s' = s" by simp
    from find_in_bucket_Some [OF Some] have "pos < length (m_container s ! b)"
      "eq (m_container s ! b ! pos) k" by simp_all
    then obtain x where "x \<in> set (m_container s ! b)" "eq x k" by (metis nth_mem)
    moreover from this(1) lt have "x \<in> set (elements s)"
      unfolding elements_bucket by blast
    ultimately have "\<exists>x \<in> set (elements s). eq x k" by blast
    with inv s' show ?thesis by auto
  next
    case None
    then have none: "find_in_bucket (m_key_equal s) k (m_container s ! b) 0 = None"
      using es by simp
    then have f: "ll_find k b s = Inr (hs_end s)" using lt by (simp add: ll_find_def)
    have nm: "m_n_elements s \<noteq> size_type_max"
    proof
      assume "m_n_elements s = size_type_max"
      with ins b f nz show False by (simp add: hs_insert_def)
    qed
    from absent_everywhere [OF wp _ b none] es hs resp
    have absent: "\<forall>x \<in> set (elements s). \<not> eq x k" by simp
    have "\<exists>t c w0 s3. ll_bucket k t = Inr c \<and> ll_unique_insert k c t w0 = (Inr it, s3, w') \<and>
          s' = s3\<lparr>m_n_elements := m_n_elements s3 + 1\<rparr> \<and>
          m_hasher t = h \<and> m_key_equal t = eq \<and> m_n_elements t = m_n_elements s \<and>
          mset (elements t) = mset (elements s) \<and> well_placed t \<and>
          bucket_count t \<in> set table_sizes"
    proof (cases "bucket_count s < m_n_elements s + 1")
      case True
      note g = hs_insert_growth [OF nz b none nm True, of w, unfolded ins]
      obtain q s2 w2 where i: "ll_increase_size s w = (q, s2, w2)"
        by (cases "ll_increase_size s w") auto
      from g i obtain u where q: "q = Inr u" by (cases q) auto
      from ll_increase_size_Inr [OF i [unfolded q]] obtain j where
        r: "rehash (table_sizes ! Suc j) s w = (Inr u, s2, w2)"
        and bc: "bucket_count s2 = table_sizes ! Suc j" "Suc j < n_available_sizes"
        by blast
      note rr = rehash_Inr [OF r]
      from g i q obtain b' where b': "ll_bucket k s2 = Inr b'"
        by (cases "ll_bucket k s2") auto
      obtain p s3 w3 where u: "ll_unique_insert k b' s2 w2 = (p, s3, w3)"
        by (cases "ll_unique_insert k b' s2 w2") auto
      from g i q b' u have p: "p = Inr it" "s' = s3\<lparr>m_n_elements := m_n_elements s3 + 1\<rparr>"
        "w3 = w'" by (cases p; simp)+
      have "bucket_count s2 \<in> set table_sizes"
        using bc by (simp add: table_sizes_length)
      with b' u p rr hs es show ?thesis
        by (intro exI [of _ s2] exI [of _ b'] exI [of _ w2] exI [of _ s3]) auto
    next
      case False
      note g = hs_insert_no_growth [OF nz b none nm False, of w, unfolded ins]
      obtain p s3 w3 where u: "ll_unique_insert k b s w = (p, s3, w3)"
        by (cases "ll_unique_insert k b s w") auto
      from g u have p: "p = Inr it" "s' = s3\<lparr>m_n_elements := m_n_elements s3 + 1\<rparr>"
        "w3 = w'" by (cases p; simp)+
      with u b hs es wp bt show ?thesis
        by (intro exI [of _ s] exI [of _ b] exI [of _ w] exI [of _ s3]) auto
    qed
    then obtain t c w0 s3 where c: "ll_bucket k t = Inr c"
      and u: "ll_unique_insert k c t w0 = (Inr it, s3, w')"
      and s': "s' = s3\<lparr>m_n_elements := m_n_elements s3 + 1\<rparr>"
      and t: "m_hasher t = h" "m_key_equal t = eq" "m_n_elements t = m_n_elements s"
        "mset (elements t) = mset (elements s)" "well_placed t"
        "bucket_count t \<in> set table_sizes"
      by blast
    note p = placed [OF u s']
    have m: "mset (elements s') = add_mset k (mset (elements s))"
      using p(5) t(4) by simp
    then have st: "set (elements s') = insert k (set (elements s))"
      by (metis set_mset_add_mset_insert set_mset_mset)
    have wp': "well_placed s'" by (rule p(9) [OF c t(5)])
    have uk': "unique_keys s'"
      unfolding unique_keys_def
    proof
      fix k'
      have "m_key_equal s' = eq" using p(3) t(2) by simp
      moreover have "length (filter (\<lambda>x. eq x k') (elements s')) \<le> 1"
        using uk es by (intro unique_add [OF m _ absent sym trans]) (simp add: unique_keys_def)
      ultimately show "length (filter (\<lambda>x. m_key_equal s' x k') (elements s')) \<le> 1"
        by simp
    qed
    have "length (elements s') = Suc (length (elements s))"
      using m by (metis size_add_mset size_mset)
    then have ne': "m_n_elements s' = length (elements s')"
      using p(4) t(3) ne by simp
    have "table_inv h eq s'"
      using wp' uk' ne' p(1,2,3) t by (simp add: table_inv_def)
    moreover have "\<exists>x \<in> set (elements s'). eq x k" using st refl by auto
    ultimately show ?thesis using st by auto
  qed
qed

lemma table_inv_insert:
  assumes inv: "table_inv h eq s"
    and refl: "\<forall>x. eq x x"
    and sym: "\<forall>x y. eq x y \<longrightarrow> eq y x"
    and trans: "\<forall>x y z. eq x y \<longrightarrow> eq y z \<longrightarrow> eq x z"
    and resp: "\<forall>x y. eq x y \<longrightarrow> h x = h y"
    and ins: "hs_insert k s w = (Inr (it, flag), s', w')"
  shows "table_inv h eq s' \<and> (\<exists>x \<in> set (elements s'). eq x k) \<and>
         set (elements s) \<subseteq> set (elements s') \<and>
         set (elements s') \<subseteq> insert k (set (elements s))"
proof (cases "bucket_count s = 0")
  case False
  then show ?thesis by (rule table_inv_insert_nonzero [OF inv _ refl sym trans resp ins])
next
  case True
  let ?s1 = "s\<lparr>m_container := [[]]\<rparr>"
  have nz: "bucket_count ?s1 \<noteq> 0" by (simp add: bucket_count_def)
  obtain q w1 where f: "fallible_step w = (q, w1)" by (cases "fallible_step w")
  from ins f hs_insert_zero [OF True, of k w]
  have i1: "hs_insert k ?s1 w1 = (Inr (it, flag), s', w')" by (cases q) auto
  have "elements ?s1 = elements s" using True by (simp add: elements_def bucket_count_def)
  with table_inv_insert_nonzero [OF table_inv_grow [OF inv True] nz refl sym trans resp i1]
  show ?thesis by simp
qed

lemma table_inv_insert_all:
  assumes refl: "\<forall>x. eq x x"
    and sym: "\<forall>x y. eq x y \<longrightarrow> eq y x"
    and trans: "\<forall>x y z. eq x y \<longrightarrow> eq y z \<longrightarrow> eq x z"
    and resp: "\<forall>x y. eq x y \<longrightarrow> h x = h y"
  shows "table_inv h eq s \<Longrightarrow> insert_all ks s w = (Inr u, s', w') \<Longrightarrow>
         table_inv h eq s' \<and> (\<forall>k \<in> set ks. \<exists>x \<in> set (elements s'). eq x k) \<and>
         set (elements s) \<subseteq> set (elements s') \<and>
         set (elements s') \<subseteq> set ks \<union> set (elements s)"
proof (induction ks arbitrary: s w)
  case Nil
  then show ?case by simp
next
  case (Cons k ks)
  from Cons.prems(2) obtain it flag s1 w1 where i: "hs_insert k s w = (Inr (it, flag), s1, w1)"
    and r: "insert_all ks s1 w1 = (Inr u, s', w')"
    by (auto split: sum.splits prod.splits)
  from table_inv_insert [OF Cons.prems(1) refl sym trans resp i]
  have s1: "table_inv h eq s1" "\<exists>x \<in> set (elements s1). eq x k"
    "set (elements s) \<subseteq> set (elements s1)" "set (elements s1) \<subseteq> insert k (set (elements s))"
    by simp_all
  from Cons.IH [OF s1(1) r]
  have s': "table_inv h eq s'" "\<forall>k \<in> set ks. \<exists>x \<in> set (elements s'). eq x k"
    "set (elements s1) \<subseteq> set (elements s')" "set (elements s') \<subseteq> set ks \<union> set (elements s1)"
    by simp_all
  from s1(2) s'(3) have "\<exists>x \<in> set (elements s'). eq x k" by blast
  with s1 s' show ?case by auto
qed

lemma table_inv_default: "table_inv h eq (hash_set_default h eq)"
  by (simp add: table_inv_def hash_set_default_def well_placed_def unique_keys_def
      elements_def bucket_count_def table_sizes_def)

lemma table_inv_sanity:
  assumes "table_inv h eq s"
  shows "sanity_check s"
proof -
  from assms have wp: "well_placed s" and ne: "m_n_elements s = length (elements s)"
    and bt: "bucket_count s \<in> set table_sizes"
    by (simp_all add: table_inv_def)
  from get_size_index_member [OF bt] obtain i where i: "get_size_index s = Inr i" ..
  from get_size_index_Inr(2) [OF i] i
  have "(case get_size_index s of Inl e \<Rightarrow> False | Inr i \<Rightarrow> bucket_count s = table_sizes ! i)"
    by simp
  moreover have "sum_list (map length (m_container s)) = m_n_elements s"
    using ne by (simp add: elements_def length_concat)
  moreover have "iterate (m_n_elements s) s (hs_begin s) = Some (elements s)"
    using ne by (simp add: iterate_elements)
  ultimately show ?thesis using wp ne by (simp add: sanity_check_def)
qed

lemma unique_distinct:
  "(\<forall>k. length (filter (\<lambda>x. x = k) xs) \<le> 1) \<Longrightarrow> distinct xs"
proof (induction xs)
  case Nil
  then show ?case by simp
next
  case (Cons a xs)
  have "a \<notin> set xs"
  proof
    assume "a \<in> set xs"
    then have "filter (\<lambda>x. x = a) xs \<noteq> []" by (auto simp: filter_empty_conv)
    then obtain y ys where "filter (\<lambda>x. x = a) xs = y # ys"
      by (cases "filter (\<lambda>x. x = a) xs") auto
    with Cons.prems [rule_format, of a] show False by simp
  qed
  moreover have "\<forall>k. length (filter (\<lambda>x. x = k) xs) \<le> 1"
  proof
    fix k
    from Cons.prems [rule_format, of k] show "length (filter (\<lambda>x. x = k) xs) \<le> 1"
      by (simp split: if_splits)
  qed
  ultimately show ?case using Cons.IH by simp
qed

text \<open>
  When no step fails and the hasher never throws, a sequence of \<open>insert\<close> calls returns
  normally on a table with room for all of them.
\<close>

lemma insert_all_returns:
  assumes refl: "\<forall>x. eq x x"
    and sym: "\<forall>x y. eq x y \<longrightarrow> eq y x"
    and trans: "\<forall>x y z. eq x y \<longrightarrow> eq y z \<longrightarrow> eq x z"
    and resp: "\<forall>x y. eq x y \<longrightarrow> h x = h y"
    and total: "\<forall>x. \<exists>n. h x = Inr n"
  shows "table_inv h eq s \<Longrightarrow> m_n_elements s + length ks \<le> 824633720831 \<Longrightarrow>
         fault_free w \<Longrightarrow> \<exists>s' w'. insert_all ks s w = (Inr (), s', w')"
proof (induction ks arbitrary: s w)
  case Nil
  then show ?case by simp
next
  case (Cons k ks)
  from Cons.prems(1) have hs: "m_hasher s = h" and bt: "bucket_count s \<in> set table_sizes"
    by (simp_all add: table_inv_def)
  from Cons.prems(2) have "m_n_elements s < 824633720831" by simp
  from hs_insert_returns [OF bt _ this Cons.prems(3), of k] total hs
  obtain it flag s1 w1 where i: "hs_insert k s w = (Inr (it, flag), s1, w1)"
    and n: "m_n_elements s1 \<le> m_n_elements s + 1" and ff: "fault_free w1" by auto
  from table_inv_insert [OF Cons.prems(1) refl sym trans resp i]
  have inv1: "table_inv h eq s1" by simp
  from n Cons.prems(2) have "m_n_elements s1 + length ks \<le> 824633720831" by simp
  from Cons.IH [OF inv1 this ff] i show ?case by simp
qed

text \<open>
  Claim C5. When a key equal to \<open>k\<close> under the equality predicate is already in the
  destination bucket, \<open>insert(k)\<close> returns an iterator to an equal stored key together
  with \<open>false\<close>, and the table is the very same table afterwards; nothing is allocated
  or constructed on the way. Consequently, for an equality predicate that is an
  equivalence and a hasher that agrees on equal keys, after any sequence of \<open>insert\<close>
  calls on a fresh table every inserted key has exactly one equal stored element, every
  stored element is one of the inserted keys, \<open>size()\<close> is the number of stored
  elements, and \<open>sanity_check\<close> holds; with plain equality the stored keys are
  distinct, they are the inserted keys, and \<open>size()\<close> is the number of distinct
  inserted keys. Such a sequence does return normally when no allocation and no
  constructor fails, the hasher never throws and the sequence is no longer than the
  largest size class.
\<close>

theorem insert_existing_no_mutation:
  "(ll_bucket k s = Inr b \<and> x \<in> set (m_container s ! b) \<and> m_key_equal s x k \<longrightarrow>
      (\<exists>pos. hs_insert k s w = (Inr (\<lparr>m_idx = b, m_it = Some pos\<rparr>, False), s, w) \<and>
             pos < length (m_container s ! b) \<and>
             m_key_equal s (m_container s ! b ! pos) k)) \<and>
   ((\<forall>x. eq x x) \<and> (\<forall>x y. eq x y \<longrightarrow> eq y x) \<and>
    (\<forall>x y z. eq x y \<longrightarrow> eq y z \<longrightarrow> eq x z) \<and>
    (\<forall>x y. eq x y \<longrightarrow> h x = h y) \<and>
    insert_all ks (hash_set_default h eq) w = (Inr u, s', w') \<longrightarrow>
      (\<forall>k \<in> set ks. length (filter (\<lambda>x. eq x k) (elements s')) = 1) \<and>
      set (elements s') \<subseteq> set ks \<and>
      hs_size s' = length (elements s') \<and>
      sanity_check s' \<and>
      (eq = (=) \<longrightarrow>
         distinct (elements s') \<and> set (elements s') = set ks \<and> hs_size s' = card (set ks))) \<and>
   ((\<forall>x. eq x x) \<and> (\<forall>x y. eq x y \<longrightarrow> eq y x) \<and>
    (\<forall>x y z. eq x y \<longrightarrow> eq y z \<longrightarrow> eq x z) \<and>
    (\<forall>x y. eq x y \<longrightarrow> h x = h y) \<and> (\<forall>x. \<exists>n. h x = Inr n) \<and>
    length ks \<le> 824633720831 \<and> fault_free w \<longrightarrow>
      (\<exists>s' w'. insert_all ks (hash_set_default h eq) w = (Inr (), s', w')))"
proof (intro conjI impI)
  assume a: "ll_bucket k s = Inr b \<and> x \<in> set (m_container s ! b) \<and> m_key_equal s x k"
  then have "find_in_bucket (m_key_equal s) k (m_container s ! b) 0 \<noteq> None"
    by (auto simp: find_in_bucket_None)
  then obtain pos where p: "find_in_bucket (m_key_equal s) k (m_container s ! b) 0 = Some pos"
    by auto
  from hs_insert_present [OF _ p, of w] a find_in_bucket_Some [OF p]
  show "\<exists>pos. hs_insert k s w = (Inr (\<lparr>m_idx = b, m_it = Some pos\<rparr>, False), s, w) \<and>
             pos < length (m_container s ! b) \<and>
             m_key_equal s (m_container s ! b ! pos) k"
    by auto
next
  assume a: "(\<forall>x. eq x x) \<and> (\<forall>x y. eq x y \<longrightarrow> eq y x) \<and>
    (\<forall>x y z. eq x y \<longrightarrow> eq y z \<longrightarrow> eq x z) \<and>
    (\<forall>x y. eq x y \<longrightarrow> h x = h y) \<and>
    insert_all ks (hash_set_default h eq) w = (Inr u, s', w')"
  then have refl: "\<forall>x. eq x x" and sym: "\<forall>x y. eq x y \<longrightarrow> eq y x"
    and trans: "\<forall>x y z. eq x y \<longrightarrow> eq y z \<longrightarrow> eq x z"
    and resp: "\<forall>x y. eq x y \<longrightarrow> h x = h y"
    and ins: "insert_all ks (hash_set_default h eq) w = (Inr u, s', w')"
    by blast+
  from table_inv_insert_all [OF refl sym trans resp table_inv_default ins]
  have inv: "table_inv h eq s'"
    and ex: "\<forall>k \<in> set ks. \<exists>x \<in> set (elements s'). eq x k"
    and sub: "set (elements s') \<subseteq> set ks"
    by (simp_all add: hash_set_default_def elements_def)
  from inv have uk: "\<forall>k. length (filter (\<lambda>x. eq x k) (elements s')) \<le> 1"
    and ne: "m_n_elements s' = length (elements s')"
    by (auto simp: table_inv_def unique_keys_def)
  show one: "\<forall>k \<in> set ks. length (filter (\<lambda>x. eq x k) (elements s')) = 1"
  proof
    fix k assume "k \<in> set ks"
    with ex have "filter (\<lambda>x. eq x k) (elements s') \<noteq> []"
      by (auto simp: filter_empty_conv)
    then obtain y ys where "filter (\<lambda>x. eq x k) (elements s') = y # ys"
      by (cases "filter (\<lambda>x. eq x k) (elements s')") auto
    with uk [rule_format, of k] show "length (filter (\<lambda>x. eq x k) (elements s')) = 1"
      by simp
  qed
  show "set (elements s') \<subseteq> set ks" by (rule sub)
  show sz: "hs_size s' = length (elements s')" using ne by (simp add: hs_size_def)
  show "sanity_check s'" by (rule table_inv_sanity [OF inv])
  {
    assume e: "eq = (=)"
    with uk show d: "distinct (elements s')" by (intro unique_distinct) simp
    from ex e sub show st: "set (elements s') = set ks" by auto
    from d st sz show "hs_size s' = card (set ks)"
      by (metis distinct_card)
  }
next
  assume a: "(\<forall>x. eq x x) \<and> (\<forall>x y. eq x y \<longrightarrow> eq y x) \<and>
    (\<forall>x y z. eq x y \<longrightarrow> eq y z \<longrightarrow> eq x z) \<and>
    (\<forall>x y. eq x y \<longrightarrow> h x = h y) \<and> (\<forall>x. \<exists>n. h x = Inr n) \<and>
    length ks \<le> 824633720831 \<and> fault_free w"
  then have refl: "\<forall>x. eq x x" and sym: "\<forall>x y. eq x y \<longrightarrow> eq y x"
    and trans: "\<forall>x y z. eq x y \<longrightarrow> eq y z \<longrightarrow> eq x z"
    and resp: "\<forall>x y. eq x y \<longrightarrow> h x = h y" and total: "\<forall>x. \<exists>n. h x = Inr n"
    and len: "length ks \<le> 824633720831" and ff: "fault_free w"
    by blast+
  from len have "m_n_elements (hash_set_default h eq) + length ks \<le> 824633720831"
    by (simp add: hash_set_default_def)
  from insert_all_returns [OF refl sym trans resp total table_inv_default this ff]
  show "\<exists>s' w'. insert_all ks (hash_set_default h eq) w = (Inr (), s', w')" .
qed

theorem insert_existing_no_mutation_witness:
  "hs_insert (3::nat)
      \<lparr>m_container = [[3], [1], [5]], m_hasher = Inr, m_key_equal = (=), m_n_elements = 3\<rparr> []
    = (Inr (\<lparr>m_idx = 0, m_it = Some 0\<rparr>, False),
       \<lparr>m_container = [[3], [1], [5]], m_hasher = Inr, m_key_equal = (=), m_n_elements = 3\<rparr>,
       []) \<and>
   (\<exists>s' w'. insert_all [1, 3, 5, 3 :: nat] (hash_set_default Inr (=)) [] = (Inr (), s', w') \<and>
      hs_size s' = 3 \<and> set (elements s') = {1, 3, 5} \<and> distinct (elements s') \<and>
      sanity_check s')"
proof -
  let ?s = "\<lparr>m_container = [[3], [1], [5::nat]], m_hasher = Inr, m_key_equal = (=),
    m_n_elements = 3\<rparr>"
  let ?w = "[] :: faults"
  have b: "ll_bucket 3 ?s = Inr 0 \<and> 3 \<in> set (m_container ?s ! 0) \<and> m_key_equal ?s 3 3"
    by (simp add: ll_bucket_def bucket_count_def)
  note t1 = insert_existing_no_mutation [where k = 3 and s = ?s and b = 0 and x = 3
      and w = ?w, THEN conjunct1, THEN mp, OF b]
  then obtain pos where
    p: "hs_insert 3 ?s ?w = (Inr (\<lparr>m_idx = 0, m_it = Some pos\<rparr>, False), ?s, ?w)"
    "pos < length (m_container ?s ! 0)"
    by blast
  from p(2) have "pos = 0" by simp
  with p(1) have 1: "hs_insert 3 ?s ?w = (Inr (\<lparr>m_idx = 0, m_it = Some 0\<rparr>, False), ?s, ?w)"
    by simp
  have g: "(\<forall>x::nat. x = x) \<and> (\<forall>x y::nat. x = y \<longrightarrow> y = x) \<and>
    (\<forall>x y z::nat. x = y \<longrightarrow> y = z \<longrightarrow> x = z) \<and>
    (\<forall>x y::nat. x = y \<longrightarrow> (Inr x :: exn + nat) = Inr y) \<and>
    (\<forall>x::nat. \<exists>n. (Inr x :: exn + nat) = Inr n) \<and>
    length [1, 3, 5, 3 :: nat] \<le> 824633720831 \<and> fault_free ?w"
    by (simp add: fault_free_def)
  from insert_existing_no_mutation [where eq = "(=)" and h = Inr
      and ks = "[1, 3, 5, 3 :: nat]" and w = ?w,
      THEN conjunct2, THEN conjunct2, THEN mp, OF g]
  obtain s' w' where i: "insert_all [1, 3, 5, 3 :: nat] (hash_set_default Inr (=)) ?w
      = (Inr (), s', w')" by blast
  have f: "(\<forall>x::nat. x = x) \<and> (\<forall>x y::nat. x = y \<longrightarrow> y = x) \<and>
    (\<forall>x y z::nat. x = y \<longrightarrow> y = z \<longrightarrow> x = z) \<and>
    (\<forall>x y::nat. x = y \<longrightarrow> (Inr x :: exn + nat) = Inr y) \<and>
    insert_all [1, 3, 5, 3 :: nat] (hash_set_default Inr (=)) ?w = (Inr (), s', w')"
    using i by simp
  note t2 = insert_existing_no_mutation [where eq = "(=)" and h = Inr
      and ks = "[1, 3, 5, 3 :: nat]" and w = ?w and u = "()" and s' = s' and w' = w',
      THEN conjunct2, THEN conjunct1, THEN mp, OF f]
  then have d: "distinct (elements s')" and sc: "sanity_check s'"
    and st': "set (elements s') = set [1, 3, 5, 3]"
    and sz: "hs_size s' = card (set [1, 3, 5, 3 :: nat])"
    by simp_all
  have st: "set [1, 3, 5, 3 :: nat] = {1, 3, 5}" by auto
  have c: "card {1, 3, 5 :: nat} = 3" by simp
  from sz have "hs_size s' = 3" unfolding st c .
  moreover from st' have "set (elements s') = {1, 3, 5}" unfolding st .
  ultimately have "hs_size s' = 3 \<and> set (elements s') = {1, 3, 5} \<and> distinct (elements s') \<and>
      sanity_check s'" using d sc by blast
  with 1 i show ?thesis by blast
qed

subsection \<open>Failing insertions\<close>

lemma all_less_3: "(\<forall>i<Suc (Suc (Suc 0)). P i) = (P 0 \<and> P (Suc 0) \<and> P (Suc (Suc 0)))"
  by (auto simp: less_Suc_eq)

text \<open>
  The loop of a growth can fail on a table that passes \<open>sanity_check\<close>: here
  \<open>insert(4)\<close> makes a table of three buckets grow to five, the keys 3 and 1 are moved,
  and \<open>new node()\<close> fails for the key 8, which goes to the bucket of 3. The table is
  cleared.
\<close>

lemma insert_failure_in_growth:
  "sanity_check
      \<lparr>m_container = [[3], [1], [8::nat]], m_hasher = Inr, m_key_equal = (=),
        m_n_elements = 3\<rparr> \<and>
   hs_insert (4::nat)
      \<lparr>m_container = [[3], [1], [8]], m_hasher = Inr, m_key_equal = (=), m_n_elements = 3\<rparr>
      [None, None, None, Some Out_of_memory]
    = (Inl Bad_alloc,
       \<lparr>m_container = [], m_hasher = Inr, m_key_equal = (=), m_n_elements = 0\<rparr>,
       [])"
proof -
  let ?s = "\<lparr>m_container = [[3], [1], [8::nat]], m_hasher = Inr, m_key_equal = (=),
        m_n_elements = 3\<rparr>"
  have wp: "well_placed ?s"
    by (simp add: well_placed_def bucket_count_def ll_bucket_def all_less_3)
  have uk: "unique_keys ?s"
    by (simp add: unique_keys_def elements_def)
  have "table_inv Inr (=) ?s"
    using wp uk by (simp add: table_inv_def elements_def bucket_count_def table_sizes_def)
  then have "sanity_check ?s" by (rule table_inv_sanity)
  moreover have "hs_insert 4 ?s [None, None, None, Some Out_of_memory]
    = (Inl Bad_alloc,
       \<lparr>m_container = [], m_hasher = Inr, m_key_equal = (=), m_n_elements = 0\<rparr>, [])"
    by (simp add: hs_eval)
  ultimately show ?thesis by simp
qed

text \<open>
  The two tables of the next theorem, the one before and the one after the failing
  \<open>insert\<close>, both pass \<open>sanity_check\<close>.
\<close>

lemma rehashed_tables_sane:
  "sanity_check
      \<lparr>m_container = [[1::nat]], m_hasher = Inr, m_key_equal = (=), m_n_elements = 1\<rparr>"
  "sanity_check
      \<lparr>m_container = [[], [1::nat], []], m_hasher = Inr, m_key_equal = (=),
        m_n_elements = 1\<rparr>"
proof -
  let ?s = "\<lparr>m_container = [[1::nat]], m_hasher = Inr, m_key_equal = (=), m_n_elements = 1\<rparr>"
  let ?s' = "\<lparr>m_container = [[], [1::nat], []], m_hasher = Inr, m_key_equal = (=),
        m_n_elements = 1\<rparr>"
  have "well_placed ?s" "unique_keys ?s"
    by (simp_all add: well_placed_def bucket_count_def ll_bucket_def unique_keys_def
        elements_def)
  then have "table_inv Inr (=) ?s"
    by (simp add: table_inv_def elements_def bucket_count_def table_sizes_def)
  then show "sanity_check ?s" by (rule table_inv_sanity)
  have "well_placed ?s'" "unique_keys ?s'"
    by (simp_all add: well_placed_def bucket_count_def ll_bucket_def unique_keys_def
        elements_def all_less_3)
  then have "table_inv Inr (=) ?s'"
    by (simp add: table_inv_def elements_def bucket_count_def table_sizes_def)
  then show "sanity_check ?s'" by (rule table_inv_sanity)
qed

text \<open>
  Claim C4 fails on the code. An exception out of the loop of \<open>rehash\<close> does empty
  both tables (lemma \<open>rehash_failure_clears\<close>), and a failing \<open>insert\<close> on a table
  with buckets leaves it as it was or empty in every case but one (lemma
  \<open>hs_insert_Inl\<close>): when the growth has succeeded and the new key cannot be placed,
  because \<open>new node()\<close> or the constructor of the key throws, \<open>insert\<close> lets the
  exception pass and the table stays rehashed. Here a table of one bucket that holds
  the key 1 receives \<open>insert(4)\<close>; the allocation of the three new buckets and the
  move of 1 succeed, the allocation of the node for 4 fails. The table is left with
  three buckets and the key 1: it is not the table before the call, and it is not
  empty, though it passes \<open>sanity_check\<close> as the table before the call did (lemma
  \<open>rehashed_tables_sane\<close>). The documentation of the class promises the same state
  as before the attempted insertion or an emptied table.
\<close>

theorem insert_failure_after_growth:
  "hs_insert (4::nat)
      \<lparr>m_container = [[1]], m_hasher = Inr, m_key_equal = (=), m_n_elements = 1\<rparr>
      [None, None, Some Out_of_memory]
    = (Inl Bad_alloc,
       \<lparr>m_container = [[], [1], []], m_hasher = Inr, m_key_equal = (=), m_n_elements = 1\<rparr>,
       [])"
  by (simp add: hs_eval)

section \<open>Properties of the bucket nodes\<close>

lemma chain_heap_upd:
  "chain st p xs \<Longrightarrow> heap_nodes st a = None \<Longrightarrow>
   chain (st\<lparr>heap_nodes := (heap_nodes st)(a \<mapsto> n), buckets := bs\<rparr>) p xs"
  by (induction xs arbitrary: p) (auto split: ptr.splits option.splits)

text \<open>
  When \<open>list::insert\<close> succeeds, it does to the nodes of a bucket what \<open>list_insert\<close>
  does to its chain, and the node it returns is the one at the position that
  \<open>list_insert\<close> gives.
\<close>

lemma list_insert_node_refines:
  assumes "bucket_holds st idx xs" "heap_nodes st fresh = None"
    and "list_insert item xs w = (Inr (ch, pos), w')"
  shows "bucket_holds (snd (list_insert_node item idx fresh st)) idx ch"
proof (cases xs)
  case Nil
  with assms(3) have "ch = [item]" by (auto split: sum.splits prod.splits)
  with Nil assms(1) show ?thesis
    by (simp add: bucket_holds_def list_insert_node_def)
next
  case (Cons x rest)
  with assms(3) have ch: "ch = x # item # rest" by (auto split: sum.splits prod.splits)
  from Cons assms(1) have c: "chain st (m_next (buckets st ! idx)) rest"
    and ne: "m_next (buckets st ! idx) \<noteq> Null"
    by (cases rest; auto simp: bucket_holds_def split: ptr.splits)+
  show ?thesis
    using assms(1,2) Cons ch ne chain_heap_upd [OF c assms(2)]
    by (simp add: bucket_holds_def list_insert_node_def Let_def)
qed

lemma list_insert_node_position:
  assumes "bucket_holds st idx xs" "list_insert item xs w = (Inr (ch, pos), w')"
  shows "fst (list_insert_node item idx fresh st) = (if pos = 0 then Slot idx else Heap fresh)"
proof (cases xs)
  case Nil
  with assms show ?thesis
    by (auto simp: bucket_holds_def list_insert_node_def split: sum.splits prod.splits)
next
  case (Cons x rest)
  with assms(2) have "pos = 1" by (auto split: sum.splits prod.splits)
  moreover from Cons assms(1) have "m_next (buckets st ! idx) \<noteq> Null"
    by (cases rest; auto simp: bucket_holds_def split: ptr.splits)
  ultimately show ?thesis by (simp add: list_insert_node_def Let_def)
qed

lemma chain_functional: "chain st p xs \<Longrightarrow> chain st p ys \<Longrightarrow> xs = ys"
proof (induction xs arbitrary: p ys)
  case Nil
  then show ?case by (cases ys) auto
next
  case (Cons x xs)
  then show ?case
    by (cases ys) (auto split: ptr.splits option.splits)
qed

lemma chain_delete:
  assumes "chain st p xs" "chain st (Heap a) ys" "length xs < length ys"
  shows "chain (st\<lparr>buckets := bs, heap_nodes := (heap_nodes st)(a := None)\<rparr>) p xs"
  using assms
proof (induction xs arbitrary: p)
  case Nil
  then show ?case by simp
next
  case (Cons x xs)
  from Cons.prems(1) obtain b n where p: "p = Heap b" and n: "heap_nodes st b = Some n"
    and x: "m_storage n = Some x" and c: "chain st (m_next n) xs"
    by (auto split: ptr.splits option.splits)
  have "b \<noteq> a"
  proof
    assume "b = a"
    with Cons.prems(1) p have "chain st (Heap a) (x # xs)" by simp
    from chain_functional [OF this Cons.prems(2)] Cons.prems(3) show False by simp
  qed
  moreover from Cons.prems(3) have "length xs < length ys" by simp
  note Cons.IH [OF c Cons.prems(2) this]
  ultimately show ?case using p n x by simp
qed

text \<open>
  Erasing the first key of a bucket with at least two keys: the bucket then holds the
  remaining keys in their order, the second one now inline, and the node that carried
  it is gone from the free store.
\<close>

lemma erase_head_general:
  assumes "bucket_holds st idx (x # y # rest)"
  shows "\<exists>a st'. m_next (buckets st ! idx) = Heap a \<and>
           ll_erase (idx, Slot idx) st = Some (Inr (Slot idx, st')) \<and>
           bucket_holds st' idx (y # rest) \<and>
           heap_nodes st' = (heap_nodes st)(a := None) \<and>
           length (buckets st') = length (buckets st)"
proof -
  from assms obtain a n where i: "idx < length (buckets st)"
    and a: "m_next (buckets st ! idx) = Heap a" and h: "heap_nodes st a = Some n"
    and n: "m_storage n = Some y" and c: "chain st (m_next n) rest"
    by (auto simp: bucket_holds_def split: ptr.splits option.splits)
  let ?bs = "(buckets st)[idx := \<lparr>m_storage = m_storage n, m_next = m_next n\<rparr>]"
  let ?st' = "st\<lparr>buckets := ?bs, heap_nodes := (heap_nodes st)(a := None)\<rparr>"
  have e: "ll_erase (idx, Slot idx) st = Some (Inr (Slot idx, ?st'))"
    using i a h by (simp add: ll_erase_def list_end_def list_begin_def Let_def)
  have "chain st (Heap a) (y # rest)" using h n c by simp
  from chain_delete [OF c this, of ?bs] have "chain ?st' (m_next n) rest" by simp
  then have "bucket_holds ?st' idx (y # rest)" using i n by (simp add: bucket_holds_def)
  with a e show ?thesis by (intro exI [of _ a] exI [of _ ?st']) simp
qed

text \<open>
  Erasing the second of two keys runs the loop once: the inline node is linked to the
  terminator and the node is deleted; the iterator returned is the end of the bucket.
\<close>

lemma erase_second_of_two:
  assumes "bucket_holds st idx [x, y]" "m_next (buckets st ! idx) = Heap a"
  shows "\<exists>st'. ll_erase (idx, Heap a) st = Some (Inr (Terminator, st')) \<and>
           bucket_holds st' idx [x] \<and> heap_nodes st' = (heap_nodes st)(a := None)"
proof -
  from assms obtain n where i: "idx < length (buckets st)"
    and h: "heap_nodes st a = Some n" and n: "m_next n = Terminator"
    and x: "m_storage (buckets st ! idx) = Some x"
    by (auto simp: bucket_holds_def split: ptr.splits option.splits)
  let ?st' = "st\<lparr>buckets := (buckets st)[idx := (buckets st ! idx)\<lparr>m_next := Terminator\<rparr>],
    heap_nodes := (heap_nodes st)(a := None)\<rparr>"
  have s: "erase_scan st (Heap a) (Slot idx) (Heap a) = Some (Inr (Slot idx, ?st'))"
    using i h n by (subst erase_scan.simps) (simp add: node_at_def set_next_def)
  have "ll_erase (idx, Heap a) st = Some (Inr (Terminator, ?st'))"
    using i assms(2) s
    by (simp add: ll_erase_def list_end_def list_begin_def Let_def node_at_def)
  moreover have "bucket_holds ?st' idx [x]" using i x by (simp add: bucket_holds_def)
  ultimately show ?thesis by (intro exI [of _ ?st']) simp
qed

text \<open>
  Claim C8. Erasing the first key of a bucket that holds one key leaves the bucket
  empty: its slot stays in the bucket array (the array keeps its length and every
  other slot its content) and nothing on the free store changes. Erasing the first key
  of a bucket that holds two keys leaves a bucket whose only key is the former second
  one, stored in the inline node of the slot and linked to the terminator, while the
  heap node that carried it has been deleted.
\<close>

theorem erase_head:
  "(bucket_holds st idx [x] \<longrightarrow>
      (\<exists>st'. ll_erase (idx, Slot idx) st = Some (Inr (Slot idx, st')) \<and>
             bucket_holds st' idx [] \<and>
             length (buckets st') = length (buckets st) \<and>
             heap_nodes st' = heap_nodes st \<and>
             (\<forall>j. j \<noteq> idx \<longrightarrow> buckets st' ! j = buckets st ! j))) \<and>
   (bucket_holds st idx [x, y] \<longrightarrow>
      (\<exists>a st'. m_next (buckets st ! idx) = Heap a \<and>
             heap_nodes st a = Some \<lparr>m_storage = Some y, m_next = Terminator\<rparr> \<and>
             ll_erase (idx, Slot idx) st = Some (Inr (Slot idx, st')) \<and>
             bucket_holds st' idx [y] \<and>
             buckets st' ! idx = \<lparr>m_storage = Some y, m_next = Terminator\<rparr> \<and>
             heap_nodes st' = (heap_nodes st)(a := None) \<and>
             length (buckets st') = length (buckets st) \<and>
             (\<forall>j. j \<noteq> idx \<longrightarrow> buckets st' ! j = buckets st ! j)))"
proof (intro conjI impI)
  assume "bucket_holds st idx [x]"
  then have i: "idx < length (buckets st)" and n: "m_next (buckets st ! idx) = Terminator"
    by (simp_all add: bucket_holds_def)
  then show "\<exists>st'. ll_erase (idx, Slot idx) st = Some (Inr (Slot idx, st')) \<and>
             bucket_holds st' idx [] \<and>
             length (buckets st') = length (buckets st) \<and>
             heap_nodes st' = heap_nodes st \<and>
             (\<forall>j. j \<noteq> idx \<longrightarrow> buckets st' ! j = buckets st ! j)"
    by (simp add: ll_erase_def list_end_def bucket_holds_def Let_def)
next
  assume "bucket_holds st idx [x, y]"
  then obtain a n where i: "idx < length (buckets st)"
    and a: "m_next (buckets st ! idx) = Heap a" and h: "heap_nodes st a = Some n"
    and n: "m_storage n = Some y" "m_next n = Terminator"
    by (auto simp: bucket_holds_def split: ptr.splits option.splits)
  from n have "n = \<lparr>m_storage = Some y, m_next = Terminator\<rparr>" by (cases n) simp
  with i a h show "\<exists>a st'. m_next (buckets st ! idx) = Heap a \<and>
             heap_nodes st a = Some \<lparr>m_storage = Some y, m_next = Terminator\<rparr> \<and>
             ll_erase (idx, Slot idx) st = Some (Inr (Slot idx, st')) \<and>
             bucket_holds st' idx [y] \<and>
             buckets st' ! idx = \<lparr>m_storage = Some y, m_next = Terminator\<rparr> \<and>
             heap_nodes st' = (heap_nodes st)(a := None) \<and>
             length (buckets st') = length (buckets st) \<and>
             (\<forall>j. j \<noteq> idx \<longrightarrow> buckets st' ! j = buckets st ! j)"
    by (simp add: ll_erase_def list_end_def list_begin_def bucket_holds_def Let_def)
qed

theorem erase_head_witness:
  "(\<exists>st'. ll_erase (0, Slot 0)
       \<lparr>buckets = [\<lparr>m_storage = Some (3::nat), m_next = Terminator\<rparr>,
                   \<lparr>m_storage = Some 4, m_next = Heap 0\<rparr>,
                   \<lparr>m_storage = None, m_next = Null\<rparr>],
        heap_nodes = [0 \<mapsto> \<lparr>m_storage = Some 7, m_next = Terminator\<rparr>]\<rparr>
       = Some (Inr (Slot 0, st')) \<and>
     m_next (buckets st' ! 0) = Null \<and> length (buckets st') = 3 \<and>
     heap_nodes st' 0 = Some \<lparr>m_storage = Some 7, m_next = Terminator\<rparr>) \<and>
   (\<exists>st'. ll_erase (1, Slot 1)
       \<lparr>buckets = [\<lparr>m_storage = Some (3::nat), m_next = Terminator\<rparr>,
                   \<lparr>m_storage = Some 4, m_next = Heap 0\<rparr>,
                   \<lparr>m_storage = None, m_next = Null\<rparr>],
        heap_nodes = [0 \<mapsto> \<lparr>m_storage = Some 7, m_next = Terminator\<rparr>]\<rparr>
       = Some (Inr (Slot 1, st')) \<and>
     buckets st' ! 1 = \<lparr>m_storage = Some 7, m_next = Terminator\<rparr> \<and>
     length (buckets st') = 3 \<and> heap_nodes st' 0 = None)"
proof -
  let ?st = "\<lparr>buckets = [\<lparr>m_storage = Some (3::nat), m_next = Terminator\<rparr>,
                   \<lparr>m_storage = Some 4, m_next = Heap 0\<rparr>,
                   \<lparr>m_storage = None, m_next = Null\<rparr>],
        heap_nodes = [0 \<mapsto> \<lparr>m_storage = Some 7, m_next = Terminator\<rparr>]\<rparr>"
  have 1: "bucket_holds ?st 0 [3]" by (simp add: bucket_holds_def)
  have 2: "bucket_holds ?st 1 [4, 7]" by (simp add: bucket_holds_def)
  from erase_head [of ?st 0 3, THEN conjunct1, THEN mp, OF 1]
  obtain s1 where a: "ll_erase (0, Slot 0) ?st = Some (Inr (Slot 0, s1))"
    "bucket_holds s1 0 []" "length (buckets s1) = length (buckets ?st)"
    "heap_nodes s1 = heap_nodes ?st"
    by blast
  from erase_head [of ?st 1 4 7, THEN conjunct2, THEN mp, OF 2]
  obtain b s2 where b: "m_next (buckets ?st ! 1) = Heap b"
    "ll_erase (1, Slot 1) ?st = Some (Inr (Slot 1, s2))"
    "buckets s2 ! 1 = \<lparr>m_storage = Some 7, m_next = Terminator\<rparr>"
    "heap_nodes s2 = (heap_nodes ?st)(b := None)" "length (buckets s2) = length (buckets ?st)"
    by blast
  from b(1) have "b = 0" by simp
  with b have "\<exists>st'. ll_erase (1, Slot 1) ?st = Some (Inr (Slot 1, st')) \<and>
     buckets st' ! 1 = \<lparr>m_storage = Some 7, m_next = Terminator\<rparr> \<and>
     length (buckets st') = 3 \<and> heap_nodes st' 0 = None"
    by (intro exI [of _ s2]) simp
  moreover from a have "\<exists>st'. ll_erase (0, Slot 0) ?st = Some (Inr (Slot 0, st')) \<and>
     m_next (buckets st' ! 0) = Null \<and> length (buckets st') = 3 \<and>
     heap_nodes st' 0 = Some \<lparr>m_storage = Some 7, m_next = Terminator\<rparr>"
    by (intro exI [of _ s1]) (simp add: bucket_holds_def)
  ultimately show ?thesis by blast
qed

section \<open>Properties of the hybrid integer\<close>

lemma magnitude_append:
  "magnitude b (xs @ ys) = magnitude b xs + 2 ^ (b * length xs) * magnitude b ys"
  by (induction xs) (simp_all add: power_add algebra_simps)

lemma magnitude_limbs_of: "magnitude b (limbs_of b n m) = m mod 2 ^ (b * n)"
proof (induction n arbitrary: m)
  case 0
  then show ?case by simp
next
  case (Suc n)
  have "m mod 2 ^ b + 2 ^ b * (m div 2 ^ b mod 2 ^ (b * n)) = m mod (2 ^ b * 2 ^ (b * n))"
    by (simp add: mod_mult2_eq)
  then show ?case by (simp add: Suc power_add)
qed

lemma magnitude_used: "magnitude b (take (used_limbs ls) ls) = magnitude b ls"
proof (induction ls rule: rev_induct)
  case Nil
  then show ?case by (simp add: used_limbs_def)
next
  case (snoc z ls)
  show ?case
  proof (cases "z = 0")
    case True
    then have u: "used_limbs (ls @ [z]) = used_limbs ls" by (simp add: used_limbs_def)
    have "used_limbs ls \<le> length ls"
      unfolding used_limbs_def by (metis length_dropWhile_le length_rev)
    with u snoc True show ?thesis by (simp add: magnitude_append)
  next
    case False
    then have "used_limbs (ls @ [z]) = Suc (length ls)" by (simp add: used_limbs_def)
    then show ?thesis by simp
  qed
qed

lemma static_of_int_value:
  assumes "static_of_int P v = Inr s"
  shows "static_value P s = v"
proof -
  let ?ls = "limbs_of (limb_bits P) (n_limbs P) (nat \<bar>v\<bar>)"
  from assms have c: "nat \<bar>v\<bar> < capacity P"
    and s: "s = \<lparr>st_limbs = ?ls, st_size = sgn v * int (used_limbs ?ls)\<rparr>"
    by (auto simp: static_of_int_def Let_def split: if_splits)
  have m: "magnitude (limb_bits P) (take (used_limbs ?ls) ?ls) = nat \<bar>v\<bar>"
    using c by (simp add: magnitude_used magnitude_limbs_of capacity_def)
  show ?thesis
  proof (cases "v = 0")
    case True
    then show ?thesis by (simp add: s static_value_def static_magnitude_def)
  next
    case False
    have u: "used_limbs ?ls \<noteq> 0"
    proof
      assume "used_limbs ?ls = 0"
      with m have "nat \<bar>v\<bar> = 0" by simp
      with False show False by simp
    qed
    have "\<bar>sgn v * int (used_limbs ?ls)\<bar> = int (used_limbs ?ls)"
      using False by (simp add: abs_mult abs_sgn_eq)
    moreover have "sgn (sgn v * int (used_limbs ?ls)) = sgn v"
      using u by (simp add: sgn_mult)
    ultimately have "static_value P s = sgn v * int (nat \<bar>v\<bar>)"
      by (simp add: s static_value_def static_magnitude_def m)
    then show ?thesis by (simp add: mult_sgn_abs)
  qed
qed

lemma static_of_int_total: "nat \<bar>v\<bar> < capacity P \<Longrightarrow> \<exists>s. static_of_int P v = Inr s"
  by (simp add: static_of_int_def Let_def)

lemma mp_of_int_value [simp]: "mp_value P (mp_of_int P v) = v"
  by (auto simp: mp_of_int_def static_of_int_value split: sum.splits)

lemma promote_value [simp]: "mp_value P (promote P a) = mp_value P a"
  by (cases a) simp_all

lemma hybrid_op_value:
  assumes "\<And>x y r. static_op P x y = Inr r \<Longrightarrow>
             static_value P r = mpz_op (static_value P x) (static_value P y)"
  shows "mp_value P (hybrid_op P static_op mpz_op a b) = mpz_op (mp_value P a) (mp_value P b)"
  using assms by (cases a; cases b) (auto simp: hybrid_op_def split: sum.splits)

lemma static_magnitude_abs: "int (static_magnitude P s) = \<bar>static_value P s\<bar>"
  by (cases "st_size s = 0") (simp_all add: static_magnitude_def static_value_def abs_mult)

lemma static_negative_iff:
  "static_value P s \<noteq> 0 \<Longrightarrow> static_negative s = (static_value P s < 0)"
  by (auto simp: static_negative_def static_value_def sgn_if mult_less_0_iff split: if_splits)

lemma pow_magnitude_eq: "pow_magnitude b e = b ^ e"
proof (induction b e rule: pow_magnitude.induct)
  case (1 b e)
  show ?case
  proof (cases "e = 0")
    case True
    then show ?thesis by (subst pow_magnitude.simps) simp
  next
    case False
    have sq: "(b * b) ^ (e div 2) = b ^ (2 * (e div 2))"
      by (simp only: power_mult power2_eq_square)
    show ?thesis
    proof (cases "even e")
      case True
      have "pow_magnitude b e = pow_magnitude (b * b) (e div 2)"
        using False True by (subst pow_magnitude.simps) simp
      also have "\<dots> = (b * b) ^ (e div 2)" by (rule "1.IH"(1) [OF False True])
      also have "\<dots> = b ^ (2 * (e div 2))" by (rule sq)
      also have "2 * (e div 2) = e" using True by simp
      finally show ?thesis .
    next
      case odd: False
      have "pow_magnitude b e = b * pow_magnitude (b * b) (e div 2)"
        using False odd by (subst pow_magnitude.simps) simp
      also have "pow_magnitude (b * b) (e div 2) = (b * b) ^ (e div 2)"
        by (rule "1.IH"(2) [OF False odd])
      also have "\<dots> = b ^ (2 * (e div 2))" by (rule sq)
      also have "b * b ^ (2 * (e div 2)) = b ^ Suc (2 * (e div 2))" by simp
      also have "Suc (2 * (e div 2)) = e" using odd by (simp add: odd_two_times_div_two_succ)
      finally show ?thesis .
    qed
  qed
qed

lemma signed_sgn: "signed (v < 0) (nat \<bar>v\<bar>) = v"
  by (simp add: signed_def)

lemma static_add_value:
  "static_add P x y = Inr r \<Longrightarrow> static_value P r = mpz_add (static_value P x) (static_value P y)"
  by (simp add: static_add_def mpz_add_def static_of_int_value)

lemma static_sub_value:
  "static_sub P x y = Inr r \<Longrightarrow> static_value P r = mpz_sub (static_value P x) (static_value P y)"
  by (simp add: static_sub_def mpz_sub_def static_of_int_value)

lemma static_mul_value:
  "static_mul P x y = Inr r \<Longrightarrow> static_value P r = mpz_mul (static_value P x) (static_value P y)"
  by (simp add: static_mul_def mpz_mul_def static_of_int_value)

lemma signed_quotient:
  assumes "int ma = \<bar>a\<bar>" "int mb = \<bar>b\<bar>"
    and "a \<noteq> 0 \<longrightarrow> na = (a < 0)" and "b \<noteq> 0 \<longrightarrow> nb = (b < 0)"
  shows "signed (na \<noteq> nb) (ma div mb) = mpz_tdiv_q a b"
proof (cases "a = 0 \<or> b = 0")
  case True
  with assms(1,2) show ?thesis by (auto simp: signed_def mpz_tdiv_q_def)
next
  case False
  have d: "int (ma div mb) = \<bar>a\<bar> div \<bar>b\<bar>"
    using assms(1,2) by (simp add: zdiv_int)
  from False assms(3,4) show ?thesis
    by (auto simp: signed_def mpz_tdiv_q_def d sgn_if)
qed

lemma signed_remainder:
  assumes "int ma = \<bar>a\<bar>" "int mb = \<bar>b\<bar>" and "a \<noteq> 0 \<longrightarrow> na = (a < 0)"
  shows "signed na (ma mod mb) = mpz_tdiv_r a b"
proof (cases "a = 0")
  case True
  with assms(1) show ?thesis by (auto simp: signed_def mpz_tdiv_r_def)
next
  case False
  have d: "int (ma mod mb) = \<bar>a\<bar> mod \<bar>b\<bar>"
    using assms(1,2) by (simp add: zmod_int)
  from False assms(3) show ?thesis
    by (auto simp: signed_def mpz_tdiv_r_def d sgn_if)
qed

lemma static_div_value:
  assumes "static_div P x y = Inr r"
  shows "static_value P r = mpz_tdiv_q (static_value P x) (static_value P y)"
proof -
  from assms have "static_value P r =
      signed (static_negative x \<noteq> static_negative y)
        (static_magnitude P x div static_magnitude P y)"
    by (simp add: static_div_def static_of_int_value)
  also have "\<dots> = mpz_tdiv_q (static_value P x) (static_value P y)"
    by (rule signed_quotient) (simp_all add: static_magnitude_abs static_negative_iff)
  finally show ?thesis .
qed

lemma static_mod_value:
  assumes "static_mod P x y = Inr r"
  shows "static_value P r = mpz_tdiv_r (static_value P x) (static_value P y)"
proof -
  from assms have "static_value P r =
      signed (static_negative x) (static_magnitude P x mod static_magnitude P y)"
    by (simp add: static_mod_def static_of_int_value)
  also have "\<dots> = mpz_tdiv_r (static_value P x) (static_value P y)"
    by (rule signed_remainder [where mb = "static_magnitude P y"])
      (simp_all add: static_magnitude_abs static_negative_iff)
  finally show ?thesis .
qed

lemma mp_add_value: "mp_value P (mp_add P a b) = mp_value P a + mp_value P b"
  unfolding mp_add_def by (subst hybrid_op_value) (auto simp: static_add_value mpz_add_def)

lemma mp_sub_value: "mp_value P (mp_sub P a b) = mp_value P a - mp_value P b"
  unfolding mp_sub_def by (subst hybrid_op_value) (auto simp: static_sub_value mpz_sub_def)

lemma mp_mul_value: "mp_value P (mp_mul P a b) = mp_value P a * mp_value P b"
  unfolding mp_mul_def by (subst hybrid_op_value) (auto simp: static_mul_value mpz_mul_def)

lemma mp_div_value:
  assumes "mp_value P b \<noteq> 0"
  shows "\<exists>q. mp_div P a b = Inr q \<and> mp_value P q = mpz_tdiv_q (mp_value P a) (mp_value P b)"
  using assms hybrid_op_value [of static_div P mpz_tdiv_q a b]
  by (simp add: mp_div_def mp_sign_def static_div_value sgn_eq_0_iff)

lemma mp_mod_value:
  assumes "mp_value P b \<noteq> 0"
  shows "\<exists>r. mp_mod P a b = Inr r \<and> mp_value P r = mpz_tdiv_r (mp_value P a) (mp_value P b)"
  using assms hybrid_op_value [of static_mod P mpz_tdiv_r a b]
  by (simp add: mp_mod_def mp_sign_def static_mod_value sgn_eq_0_iff)

lemma tdiv_identity: "mpz_tdiv_q a b * b + mpz_tdiv_r a b = a"
proof -
  define q r where "q = \<bar>a\<bar> div \<bar>b\<bar>" and "r = \<bar>a\<bar> mod \<bar>b\<bar>"
  have k: "q * \<bar>b\<bar> + r = \<bar>a\<bar>" by (simp add: q_def r_def)
  have sb: "sgn b * b = \<bar>b\<bar>" by (simp add: sgn_if abs_if)
  have "mpz_tdiv_q a b * b + mpz_tdiv_r a b = sgn a * (q * (sgn b * b) + r)"
    by (simp add: mpz_tdiv_q_def mpz_tdiv_r_def q_def r_def algebra_simps)
  also have "\<dots> = sgn a * \<bar>a\<bar>" by (simp only: sb k)
  finally show ?thesis by (simp add: mult_sgn_abs)
qed

lemma tdiv_r_sign: "mpz_tdiv_r a b = 0 \<or> sgn (mpz_tdiv_r a b) = sgn a"
proof (cases "\<bar>a\<bar> mod \<bar>b\<bar> = 0")
  case True
  then show ?thesis by (simp add: mpz_tdiv_r_def)
next
  case False
  moreover have "0 \<le> \<bar>a\<bar> mod \<bar>b\<bar>"
    by (cases "b = 0") (simp_all add: pos_mod_sign)
  ultimately have "0 < \<bar>a\<bar> mod \<bar>b\<bar>" by simp
  then show ?thesis by (simp add: mpz_tdiv_r_def sgn_mult)
qed

lemma tdiv_r_bound: "b \<noteq> 0 \<Longrightarrow> \<bar>mpz_tdiv_r a b\<bar> < \<bar>b\<bar>"
  by (cases "a = 0") (simp_all add: mpz_tdiv_r_def abs_mult abs_sgn_eq pos_mod_sign abs_mod_less)

lemma tdiv_q_bound: "\<bar>mpz_tdiv_q a b * b\<bar> \<le> \<bar>a\<bar>"
proof -
  define q r where "q = \<bar>a\<bar> div \<bar>b\<bar>" and "r = \<bar>a\<bar> mod \<bar>b\<bar>"
  have k: "q * \<bar>b\<bar> + r = \<bar>a\<bar>" by (simp add: q_def r_def)
  have q: "0 \<le> q" by (cases "b = 0") (simp_all add: q_def pos_imp_zdiv_nonneg_iff)
  have r: "0 \<le> r" by (cases "b = 0") (simp_all add: r_def pos_mod_sign)
  have "\<bar>mpz_tdiv_q a b * b\<bar> = \<bar>sgn a\<bar> * (\<bar>sgn b\<bar> * \<bar>b\<bar>) * q"
    using q by (simp add: mpz_tdiv_q_def q_def abs_mult)
  also have "\<bar>sgn b\<bar> * \<bar>b\<bar> = \<bar>b\<bar>" by (simp add: abs_sgn_eq)
  also have "\<bar>sgn a\<bar> * \<bar>b\<bar> * q \<le> 1 * \<bar>b\<bar> * q"
    using q by (intro mult_right_mono) (simp_all add: abs_sgn_eq)
  also have "\<dots> \<le> \<bar>a\<bar>" using k r by (simp add: mult.commute)
  finally show ?thesis .
qed

lemma hybrid_value [simp]: "mp_value P (hybrid P p v) = v"
  by (simp add: hybrid_def)

text \<open>
  Claim C1. For all integers \<open>a\<close> and \<open>b\<close>, the hybrid integers made from them give
  under \<open>+\<close>, \<open>-\<close>, \<open>*\<close> and, for a nonzero \<open>b\<close>, under \<open>/\<close> and \<open>%\<close> the value
  that the reference library computes, whether or not either operand was promoted to
  dynamic storage before the operation.
\<close>

theorem static_dynamic_equivalence:
  "mp_value P (mp_add P (hybrid P pa a) (hybrid P pb b)) = mpz_add a b \<and>
   mp_value P (mp_sub P (hybrid P pa a) (hybrid P pb b)) = mpz_sub a b \<and>
   mp_value P (mp_mul P (hybrid P pa a) (hybrid P pb b)) = mpz_mul a b \<and>
   (b \<noteq> 0 \<longrightarrow>
      (\<exists>q r. mp_div P (hybrid P pa a) (hybrid P pb b) = Inr q \<and>
             mp_value P q = mpz_tdiv_q a b \<and>
             mp_mod P (hybrid P pa a) (hybrid P pb b) = Inr r \<and>
             mp_value P r = mpz_tdiv_r a b))"
proof (intro conjI impI)
  assume "b \<noteq> 0"
  then have nz: "mp_value P (hybrid P pb b) \<noteq> 0" by simp
  from mp_div_value [OF nz, of "hybrid P pa a"] mp_mod_value [OF nz, of "hybrid P pa a"]
  show "\<exists>q r. mp_div P (hybrid P pa a) (hybrid P pb b) = Inr q \<and>
             mp_value P q = mpz_tdiv_q a b \<and>
             mp_mod P (hybrid P pa a) (hybrid P pb b) = Inr r \<and>
             mp_value P r = mpz_tdiv_r a b"
    by auto
qed (simp_all add: mp_add_value mp_sub_value mp_mul_value mpz_add_def mpz_sub_def mpz_mul_def)

theorem static_dynamic_equivalence_witness:
  "\<exists>q r. mp_div \<lparr>limb_bits = 8, n_limbs = 2\<rparr>
            (hybrid \<lparr>limb_bits = 8, n_limbs = 2\<rparr> False (- 7))
            (hybrid \<lparr>limb_bits = 8, n_limbs = 2\<rparr> True 2) = Inr q \<and>
          mp_value \<lparr>limb_bits = 8, n_limbs = 2\<rparr> q = - 3 \<and>
          mp_mod \<lparr>limb_bits = 8, n_limbs = 2\<rparr>
            (hybrid \<lparr>limb_bits = 8, n_limbs = 2\<rparr> False (- 7))
            (hybrid \<lparr>limb_bits = 8, n_limbs = 2\<rparr> True 2) = Inr r \<and>
          mp_value \<lparr>limb_bits = 8, n_limbs = 2\<rparr> r = - 1"
proof -
  have "(2::int) \<noteq> 0" by simp
  with static_dynamic_equivalence [of "\<lparr>limb_bits = 8, n_limbs = 2\<rparr>" False "- 7" True 2]
  show ?thesis by (simp add: mpz_tdiv_q_def mpz_tdiv_r_def)
qed

text \<open>
  Claim C6. For every hybrid integer \<open>a\<close> and every nonzero hybrid integer \<open>b\<close>, the
  quotient and the remainder exist, \<open>(a / b) * b + (a % b)\<close> compares equal to \<open>a\<close>, the
  remainder is zero or has the sign of \<open>a\<close>, and the quotient is truncated toward zero:
  the magnitude of \<open>(a / b) * b\<close> does not exceed that of \<open>a\<close>, and the remainder is
  smaller in magnitude than \<open>b\<close>. In particular \<open>5 / 2\<close> is \<open>2\<close>, \<open>-5 / 2\<close> is \<open>-2\<close>,
  \<open>5 % 2\<close> is \<open>1\<close> and \<open>-5 % 2\<close> is \<open>-1\<close>.
\<close>

theorem division_truncates:
  "(mp_sign P b \<noteq> 0 \<longrightarrow>
      (\<exists>q r. mp_div P a b = Inr q \<and> mp_mod P a b = Inr r \<and>
             mp_eq P (mp_add P (mp_mul P q b) r) a \<and>
             (mp_sign P r = 0 \<or> mp_sign P r = mp_sign P a) \<and>
             \<bar>mp_value P q * mp_value P b\<bar> \<le> \<bar>mp_value P a\<bar> \<and>
             \<bar>mp_value P r\<bar> < \<bar>mp_value P b\<bar>)) \<and>
   (\<exists>q. mp_div P (mp_of_int P 5) (mp_of_int P 2) = Inr q \<and> mp_value P q = 2) \<and>
   (\<exists>q. mp_div P (mp_of_int P (- 5)) (mp_of_int P 2) = Inr q \<and> mp_value P q = - 2) \<and>
   (\<exists>r. mp_mod P (mp_of_int P 5) (mp_of_int P 2) = Inr r \<and> mp_value P r = 1) \<and>
   (\<exists>r. mp_mod P (mp_of_int P (- 5)) (mp_of_int P 2) = Inr r \<and> mp_value P r = - 1)"
proof (intro conjI impI)
  assume "mp_sign P b \<noteq> 0"
  then have nz: "mp_value P b \<noteq> 0" by (simp add: mp_sign_def sgn_eq_0_iff)
  from mp_div_value [OF nz, of a] obtain q where
    q: "mp_div P a b = Inr q" "mp_value P q = mpz_tdiv_q (mp_value P a) (mp_value P b)"
    by blast
  from mp_mod_value [OF nz, of a] obtain r where
    r: "mp_mod P a b = Inr r" "mp_value P r = mpz_tdiv_r (mp_value P a) (mp_value P b)"
    by blast
  have "mp_eq P (mp_add P (mp_mul P q b) r) a"
    by (simp add: mp_eq_def mp_add_value mp_mul_value q(2) r(2) tdiv_identity)
  moreover have "mp_sign P r = 0 \<or> mp_sign P r = mp_sign P a"
    using tdiv_r_sign [of "mp_value P a" "mp_value P b"]
    by (auto simp: mp_sign_def r(2))
  moreover have "\<bar>mp_value P q * mp_value P b\<bar> \<le> \<bar>mp_value P a\<bar>"
    by (simp add: q(2) tdiv_q_bound)
  moreover have "\<bar>mp_value P r\<bar> < \<bar>mp_value P b\<bar>"
    using nz by (simp add: r(2) tdiv_r_bound)
  ultimately show "\<exists>q r. mp_div P a b = Inr q \<and> mp_mod P a b = Inr r \<and>
             mp_eq P (mp_add P (mp_mul P q b) r) a \<and>
             (mp_sign P r = 0 \<or> mp_sign P r = mp_sign P a) \<and>
             \<bar>mp_value P q * mp_value P b\<bar> \<le> \<bar>mp_value P a\<bar> \<and>
             \<bar>mp_value P r\<bar> < \<bar>mp_value P b\<bar>"
    using q(1) r(1) by blast
next
  show "\<exists>q. mp_div P (mp_of_int P 5) (mp_of_int P 2) = Inr q \<and> mp_value P q = 2"
    using mp_div_value [of P "mp_of_int P 2" "mp_of_int P 5"] by (simp add: mpz_tdiv_q_def)
  show "\<exists>q. mp_div P (mp_of_int P (- 5)) (mp_of_int P 2) = Inr q \<and> mp_value P q = - 2"
    using mp_div_value [of P "mp_of_int P 2" "mp_of_int P (- 5)"] by (simp add: mpz_tdiv_q_def)
  show "\<exists>r. mp_mod P (mp_of_int P 5) (mp_of_int P 2) = Inr r \<and> mp_value P r = 1"
    using mp_mod_value [of P "mp_of_int P 2" "mp_of_int P 5"] by (simp add: mpz_tdiv_r_def)
  show "\<exists>r. mp_mod P (mp_of_int P (- 5)) (mp_of_int P 2) = Inr r \<and> mp_value P r = - 1"
    using mp_mod_value [of P "mp_of_int P 2" "mp_of_int P (- 5)"] by (simp add: mpz_tdiv_r_def)
qed

theorem division_truncates_witness:
  "\<exists>q r. mp_div \<lparr>limb_bits = 32, n_limbs = 2\<rparr> (Dynamic (- 17)) (Dynamic 5) = Inr q \<and>
          mp_mod \<lparr>limb_bits = 32, n_limbs = 2\<rparr> (Dynamic (- 17)) (Dynamic 5) = Inr r \<and>
          mp_value \<lparr>limb_bits = 32, n_limbs = 2\<rparr> q = - 3 \<and>
          mp_value \<lparr>limb_bits = 32, n_limbs = 2\<rparr> r = - 2 \<and>
          mp_eq \<lparr>limb_bits = 32, n_limbs = 2\<rparr>
            (mp_add \<lparr>limb_bits = 32, n_limbs = 2\<rparr>
               (mp_mul \<lparr>limb_bits = 32, n_limbs = 2\<rparr> q (Dynamic 5)) r)
            (Dynamic (- 17))"
proof -
  let ?P = "\<lparr>limb_bits = 32, n_limbs = 2\<rparr>"
  have s: "mp_sign ?P (Dynamic 5) \<noteq> 0" by (simp add: mp_sign_def)
  from division_truncates [of ?P "Dynamic 5" "Dynamic (- 17)"] s obtain q r where
    qr: "mp_div ?P (Dynamic (- 17)) (Dynamic 5) = Inr q"
      "mp_mod ?P (Dynamic (- 17)) (Dynamic 5) = Inr r"
      "mp_eq ?P (mp_add ?P (mp_mul ?P q (Dynamic 5)) r) (Dynamic (- 17))"
    by blast
  from qr(1) have "mp_value ?P q = - 3"
    by (auto simp: mp_div_def mp_sign_def hybrid_op_def mpz_tdiv_q_def)
  moreover from qr(2) have "mp_value ?P r = - 2"
    by (auto simp: mp_mod_def mp_sign_def hybrid_op_def mpz_tdiv_r_def)
  ultimately show ?thesis using qr by blast
qed

lemma odd_nat_int: "0 \<le> (n::int) \<Longrightarrow> odd n = odd (nat n)"
  by (simp add: even_nat_iff)

lemma power_neg_abs: "(b::int) < 0 \<Longrightarrow> b ^ k = (- 1) ^ k * \<bar>b\<bar> ^ k"
proof -
  assume "b < 0"
  then have "b = (- 1) * \<bar>b\<bar>" by simp
  then have "b ^ k = ((- 1) * \<bar>b\<bar>) ^ k" by simp
  also have "\<dots> = (- 1) ^ k * \<bar>b\<bar> ^ k" by (rule power_mult_distrib)
  finally show ?thesis .
qed

lemma signed_power:
  assumes "0 \<le> (n::int)"
  shows "signed (b < 0 \<and> odd n) (nat \<bar>b\<bar> ^ nat n) = b ^ nat n"
proof (cases "b < 0")
  case False
  then show ?thesis by (simp add: signed_def)
next
  case neg: True
  have m: "int (nat \<bar>b\<bar> ^ nat n) = \<bar>b\<bar> ^ nat n" by simp
  show ?thesis
  proof (cases "odd (nat n)")
    case True
    then have "(- 1 :: int) ^ nat n = - 1" by simp
    with power_neg_abs [OF neg, of "nat n"] have "b ^ nat n = - (\<bar>b\<bar> ^ nat n)" by simp
    moreover have "signed (b < 0 \<and> odd n) (nat \<bar>b\<bar> ^ nat n) = - int (nat \<bar>b\<bar> ^ nat n)"
      using True neg odd_nat_int [OF assms] by (simp only: signed_def simp_thms if_True)
    ultimately show ?thesis by (simp only: m)
  next
    case False
    then have "(- 1 :: int) ^ nat n = 1" by simp
    with power_neg_abs [OF neg, of "nat n"] have "b ^ nat n = \<bar>b\<bar> ^ nat n" by simp
    moreover have "signed (b < 0 \<and> odd n) (nat \<bar>b\<bar> ^ nat n) = int (nat \<bar>b\<bar> ^ nat n)"
      using False neg odd_nat_int [OF assms] by (simp only: signed_def simp_thms if_False)
    ultimately show ?thesis by (simp only: m)
  qed
qed

lemma mp_pow_nonneg:
  assumes "0 \<le> mp_value P e" "mp_value P e \<le> int ulong_max"
  shows "\<exists>r. mp_pow P base e = Inr r \<and> mp_value P r = mp_value P base ^ nat (mp_value P e)"
proof -
  have "\<not> int ulong_max < mp_value P e" using assms(2) by simp
  then have "mp_pow P base e = Inr (mp_of_int P (signed (mp_value P base < 0 \<and> odd (mp_value P e))
      (pow_magnitude (nat \<bar>mp_value P base\<bar>) (nat (mp_value P e)))))"
    using assms(1) by (simp only: mp_pow_def Let_def if_True if_False)
  then show ?thesis
    by (simp only: pow_magnitude_eq signed_power [OF assms(1)] mp_of_int_value sum.inject
        simp_thms ex_simps)
qed

lemma ulong_max_int: "int ulong_max = 18446744073709551615"
  by (simp add: ulong_max_def)

text \<open>
  Claim C7. Every base to the exponent 0 is 1, also base 0; \<open>2\<close> to the \<open>5\<close> is \<open>32\<close> and
  \<open>-3\<close> to the \<open>3\<close> is \<open>-27\<close>; a negative exponent gives 0 for a base of magnitude above
  one, 1 for base 1, \<open>-1\<close> for base \<open>-1\<close> when the exponent is odd, and the zero-division
  failure for base 0.
\<close>

theorem pow_cases:
  "(\<exists>r. mp_pow P base (mp_of_int P 0) = Inr r \<and> mp_value P r = 1) \<and>
   (\<exists>r. mp_pow P (mp_of_int P 0) (mp_of_int P 0) = Inr r \<and> mp_value P r = 1) \<and>
   (\<exists>r. mp_pow P (mp_of_int P 2) (mp_of_int P 5) = Inr r \<and> mp_value P r = 32) \<and>
   (\<exists>r. mp_pow P (mp_of_int P (- 3)) (mp_of_int P 3) = Inr r \<and> mp_value P r = - 27) \<and>
   (mp_value P e < 0 \<and> 1 < \<bar>mp_value P base\<bar> \<longrightarrow>
      (\<exists>r. mp_pow P base e = Inr r \<and> mp_value P r = 0)) \<and>
   (mp_value P e < 0 \<and> mp_value P base = 1 \<longrightarrow>
      (\<exists>r. mp_pow P base e = Inr r \<and> mp_value P r = 1)) \<and>
   (mp_value P e < 0 \<and> odd (mp_value P e) \<and> mp_value P base = - 1 \<longrightarrow>
      (\<exists>r. mp_pow P base e = Inr r \<and> mp_value P r = - 1)) \<and>
   (mp_value P e < 0 \<and> mp_value P base = 0 \<longrightarrow>
      mp_pow P base e = Inl Zero_division_error)"
proof (intro conjI impI)
  show "\<exists>r. mp_pow P base (mp_of_int P 0) = Inr r \<and> mp_value P r = 1"
    using mp_pow_nonneg [of P "mp_of_int P 0" base] by simp
  show "\<exists>r. mp_pow P (mp_of_int P 0) (mp_of_int P 0) = Inr r \<and> mp_value P r = 1"
    using mp_pow_nonneg [of P "mp_of_int P 0" "mp_of_int P 0"] by simp
  show "\<exists>r. mp_pow P (mp_of_int P 2) (mp_of_int P 5) = Inr r \<and> mp_value P r = 32"
    using mp_pow_nonneg [of P "mp_of_int P 5" "mp_of_int P 2"] by (simp add: ulong_max_int)
  show "\<exists>r. mp_pow P (mp_of_int P (- 3)) (mp_of_int P 3) = Inr r \<and> mp_value P r = - 27"
    using mp_pow_nonneg [of P "mp_of_int P 3" "mp_of_int P (- 3)"] by (simp add: ulong_max_int)
next
  assume "mp_value P e < 0 \<and> 1 < \<bar>mp_value P base\<bar>"
  then show "\<exists>r. mp_pow P base e = Inr r \<and> mp_value P r = 0"
    by (auto simp: mp_pow_def Let_def)
next
  assume "mp_value P e < 0 \<and> mp_value P base = 1"
  then show "\<exists>r. mp_pow P base e = Inr r \<and> mp_value P r = 1"
    by (auto simp: mp_pow_def Let_def)
next
  assume "mp_value P e < 0 \<and> odd (mp_value P e) \<and> mp_value P base = - 1"
  then show "\<exists>r. mp_pow P base e = Inr r \<and> mp_value P r = - 1"
    by (auto simp: mp_pow_def Let_def)
next
  assume "mp_value P e < 0 \<and> mp_value P base = 0"
  then show "mp_pow P base e = Inl Zero_division_error"
    by (auto simp: mp_pow_def Let_def)
qed

theorem pow_cases_witness:
  "(\<exists>r. mp_pow \<lparr>limb_bits = 32, n_limbs = 2\<rparr> (Dynamic 10) (Dynamic (- 2)) = Inr r \<and>
        mp_value \<lparr>limb_bits = 32, n_limbs = 2\<rparr> r = 0) \<and>
   (\<exists>r. mp_pow \<lparr>limb_bits = 32, n_limbs = 2\<rparr> (Dynamic 1) (Dynamic (- 2)) = Inr r \<and>
        mp_value \<lparr>limb_bits = 32, n_limbs = 2\<rparr> r = 1) \<and>
   (\<exists>r. mp_pow \<lparr>limb_bits = 32, n_limbs = 2\<rparr> (Dynamic (- 1)) (Dynamic (- 3)) = Inr r \<and>
        mp_value \<lparr>limb_bits = 32, n_limbs = 2\<rparr> r = - 1) \<and>
   mp_pow \<lparr>limb_bits = 32, n_limbs = 2\<rparr> (Dynamic 0) (Dynamic (- 1)) = Inl Zero_division_error"
proof -
  let ?P = "\<lparr>limb_bits = 32, n_limbs = 2\<rparr>"
  have 1: "mp_value ?P (Dynamic (- 2)) < 0 \<and> 1 < \<bar>mp_value ?P (Dynamic 10)\<bar>" by simp
  have 2: "mp_value ?P (Dynamic (- 2)) < 0 \<and> mp_value ?P (Dynamic 1) = 1" by simp
  have 3: "mp_value ?P (Dynamic (- 3)) < 0 \<and> odd (mp_value ?P (Dynamic (- 3))) \<and>
    mp_value ?P (Dynamic (- 1)) = - 1" by simp
  have 4: "mp_value ?P (Dynamic (- 1)) < 0 \<and> mp_value ?P (Dynamic 0) = 0" by simp
  from pow_cases [of ?P "Dynamic 10" "Dynamic (- 2)"] 1
  have a: "\<exists>r. mp_pow ?P (Dynamic 10) (Dynamic (- 2)) = Inr r \<and> mp_value ?P r = 0" by blast
  from pow_cases [of ?P "Dynamic 1" "Dynamic (- 2)"] 2
  have b: "\<exists>r. mp_pow ?P (Dynamic 1) (Dynamic (- 2)) = Inr r \<and> mp_value ?P r = 1" by blast
  from pow_cases [of ?P "Dynamic (- 1)" "Dynamic (- 3)"] 3
  have c: "\<exists>r. mp_pow ?P (Dynamic (- 1)) (Dynamic (- 3)) = Inr r \<and> mp_value ?P r = - 1" by blast
  from pow_cases [of ?P "Dynamic 0" "Dynamic (- 1)"] 4
  have d: "mp_pow ?P (Dynamic 0) (Dynamic (- 1)) = Inl Zero_division_error" by blast
  from a b c d show ?thesis by blast
qed

text \<open>
  The model against the values that \<open>tests/mp_integer_02.cpp\<close> expects of division,
  remainder and \<open>pow\<close>.
\<close>

lemma test_vectors_div:
  "map_sum id (mp_value P) (mp_div P (mp_of_int P 0) (mp_of_int P 1)) = Inr 0"
  "map_sum id (mp_value P) (mp_div P (mp_of_int P 7) (mp_of_int P (- 2))) = Inr (- 3)"
  "map_sum id (mp_value P) (mp_div P (mp_of_int P (- 3)) (mp_of_int P 2)) = Inr (- 1)"
  "map_sum id (mp_value P) (mp_div P (mp_of_int P (- 10)) (mp_of_int P (- 2))) = Inr 5"
  "map_sum id (mp_value P) (mp_mod P (mp_of_int P 7) (mp_of_int P (- 2))) = Inr 1"
  "map_sum id (mp_value P) (mp_mod P (mp_of_int P (- 3)) (mp_of_int P 2)) = Inr (- 1)"
  "map_sum id (mp_value P) (mp_mod P (mp_of_int P (- 10)) (mp_of_int P (- 2))) = Inr 0"
  using mp_div_value [of P "mp_of_int P 1" "mp_of_int P 0"]
    mp_div_value [of P "mp_of_int P (- 2)" "mp_of_int P 7"]
    mp_div_value [of P "mp_of_int P 2" "mp_of_int P (- 3)"]
    mp_div_value [of P "mp_of_int P (- 2)" "mp_of_int P (- 10)"]
    mp_mod_value [of P "mp_of_int P (- 2)" "mp_of_int P 7"]
    mp_mod_value [of P "mp_of_int P 2" "mp_of_int P (- 3)"]
    mp_mod_value [of P "mp_of_int P (- 2)" "mp_of_int P (- 10)"]
  by (auto simp: mpz_tdiv_q_def mpz_tdiv_r_def)

lemma test_vectors_pow:
  "map_sum id (mp_value P) (mp_pow P (mp_of_int P 2) (mp_of_int P 4)) = Inr 16"
  "map_sum id (mp_value P) (mp_pow P (mp_of_int P 2) (mp_of_int P (- 1))) = Inr 0"
  "map_sum id (mp_value P) (mp_pow P (mp_of_int P (- 3)) (mp_of_int P 13)) = Inr (- 1594323)"
  "map_sum id (mp_value P) (mp_pow P (mp_of_int P (- 1)) (mp_of_int P (- 1))) = Inr (- 1)"
  "mp_pow P (mp_of_int P (- 3)) (mp_add P (mp_of_int P (int ulong_max)) (mp_of_int P 1))
     = Inl Invalid_argument"
  using mp_pow_nonneg [of P "mp_of_int P 4" "mp_of_int P 2"]
    mp_pow_nonneg [of P "mp_of_int P 13" "mp_of_int P (- 3)"]
  by (auto simp: mp_pow_def Let_def ulong_max_int mp_add_value)

end
